theory Spec2Isabelle
  imports Complex_Main "HOL-Library.AList"
begin

section \<open>JavaScript values\<close>

text \<open>
  The clustering service (ClusteringService.js) is plain JavaScript, so its arguments are
  untyped values.  A number is an IEEE double: the finite doubles are embedded in the reals,
  and the three special values are kept apart, because the comparisons of the source treat
  them differently.  The arithmetic of the clustering functions is read as the arithmetic
  of the reals (rounding, overflow, underflow and the sign of zero are not modelled
  there); the distance is read a second time with the rounding of the doubles, in the
  section on double precision.  An object is its list of own properties in insertion
  order; a property that is read but absent yields \<open>undefined\<close>.
\<close>

datatype jsnum = Fin real | PInf | NInf | NaN

datatype jsval =
    Undefined
  | Null
  | JBool bool
  | JNum jsnum
  | JStr string
  | JObj "(string \<times> jsval) list"
  | JArr "jsval list"

text \<open>\<open>a <= b\<close> on numbers: every comparison with NaN is false.\<close>

fun js_le :: "jsnum \<Rightarrow> jsnum \<Rightarrow> bool" where
  "js_le NaN _ = False"
| "js_le _ NaN = False"
| "js_le NInf _ = True"
| "js_le _ PInf = True"
| "js_le (Fin a) (Fin b) = (a \<le> b)"
| "js_le PInf _ = False"
| "js_le _ NInf = False"

text \<open>\<open>a >= b\<close> is \<open>b <= a\<close> (again false on NaN).\<close>

definition js_ge :: "jsnum \<Rightarrow> jsnum \<Rightarrow> bool" where
  "js_ge a b = js_le b a"

text \<open>
  The arithmetic the grid index uses.  On finite operands it is the arithmetic of the
  reals; with an infinity or NaN it follows IEEE 754.  A finite quotient by zero is given
  the sign of the dividend; it does not arise below, where the divisor is the product of
  the radius and a positive constant.
\<close>

fun js_sign :: "jsnum \<Rightarrow> real" where
  "js_sign (Fin a) = sgn a"
| "js_sign PInf = 1"
| "js_sign NInf = - 1"
| "js_sign NaN = 0"

fun js_mul :: "jsnum \<Rightarrow> jsnum \<Rightarrow> jsnum" where
  "js_mul NaN _ = NaN"
| "js_mul _ NaN = NaN"
| "js_mul (Fin a) (Fin b) = Fin (a * b)"
| "js_mul x y =
     (if js_sign x * js_sign y = 0 then NaN
      else if 0 < js_sign x * js_sign y then PInf else NInf)"

fun js_div :: "jsnum \<Rightarrow> jsnum \<Rightarrow> jsnum" where
  "js_div NaN _ = NaN"
| "js_div _ NaN = NaN"
| "js_div (Fin a) (Fin b) =
     (if b \<noteq> 0 then Fin (a / b)
      else if a = 0 then NaN else if 0 < a then PInf else NInf)"
| "js_div (Fin a) _ = Fin 0"
| "js_div x (Fin b) = (if 0 \<le> js_sign x * b then PInf else NInf)"
| "js_div _ _ = NaN"

text \<open>\<open>Math.floor\<close>.\<close>

fun js_floor :: "jsnum \<Rightarrow> jsnum" where
  "js_floor (Fin a) = Fin (of_int \<lfloor>a\<rfloor>)"
| "js_floor x = x"

fun js_add :: "jsnum \<Rightarrow> jsnum \<Rightarrow> jsnum" where
  "js_add NaN _ = NaN"
| "js_add _ NaN = NaN"
| "js_add (Fin a) (Fin b) = Fin (a + b)"
| "js_add PInf NInf = NaN"
| "js_add NInf PInf = NaN"
| "js_add (Fin a) y = y"
| "js_add x _ = x"

text \<open>Truthiness, as \<open>!v\<close>, \<open>v ? a : b\<close> and \<open>if (v)\<close> read a value.\<close>

fun truthy :: "jsval \<Rightarrow> bool" where
  "truthy Undefined = False"
| "truthy Null = False"
| "truthy (JBool b) = b"
| "truthy (JNum (Fin x)) = (x \<noteq> 0)"
| "truthy (JNum NaN) = False"
| "truthy (JNum _) = True"
| "truthy (JStr s) = (s \<noteq> [])"
| "truthy (JObj _) = True"
| "truthy (JArr _) = True"

text \<open>
  Property read \<open>v.name\<close> on a value that is neither \<open>null\<close> nor \<open>undefined\<close>
  (on those two the read throws a TypeError; every caller below tests for them first).
  A missing property reads as \<open>undefined\<close>; the names read by the service
  (\<open>coordinates\<close>, \<open>latitude\<close>, \<open>longitude\<close>, \<open>id\<close>, \<open>clusterId\<close>) are no
  properties of booleans, numbers, strings or arrays.
\<close>

fun getProp :: "jsval \<Rightarrow> string \<Rightarrow> jsval" where
  "getProp (JObj fs) name = (case map_of fs name of Some v \<Rightarrow> v | None \<Rightarrow> Undefined)"
| "getProp _ name = Undefined"

text \<open>
  The own properties an object spread \<open>{...v}\<close> copies.  Only objects occur as \<open>v\<close>
  below (an event that passed validation has a \<open>coordinates\<close> property).
\<close>

fun ownProps :: "jsval \<Rightarrow> (string \<times> jsval) list" where
  "ownProps (JObj fs) = fs"
| "ownProps _ = []"

section \<open>Coordinate validation\<close>

text \<open>
  \<^verbatim>\<open>
  function isValidCoordinate(coord) {
    if (!coord || typeof coord.latitude !== 'number' || typeof coord.longitude !== 'number') {
      return false;
    }
    return coord.latitude >= -90 && coord.latitude <= 90 &&
           coord.longitude >= -180 && coord.longitude <= 180;
  }
  \<close>
\<close>

definition isValidCoordinate :: "jsval \<Rightarrow> bool" where
  "isValidCoordinate coord =
     (if \<not> truthy coord then False
      else case (getProp coord ''latitude'', getProp coord ''longitude'') of
        (JNum lat, JNum lon) \<Rightarrow>
          js_ge lat (Fin (- 90)) \<and> js_le lat (Fin 90) \<and>
          js_ge lon (Fin (- 180)) \<and> js_le lon (Fin 180)
      | _ \<Rightarrow> False)"

section \<open>Geodesic distance\<close>

text \<open>
  \<open>calculateDistance\<close> is modelled on coordinates whose two fields are finite numbers
  (the only ones \<open>clusterEvents\<close> passes to it), in exact real arithmetic.
  \<open>Math.atan2(y, x)\<close> is the angle of the point \<open>(x, y)\<close>.
  \<^verbatim>\<open>
  const a = Math.sin(deltaLat / 2) * Math.sin(deltaLat / 2) +
            Math.cos(lat1) * Math.cos(lat2) * Math.sin(deltaLon / 2) * Math.sin(deltaLon / 2);
  const c = 2 * Math.atan2(Math.sqrt(a), Math.sqrt(1 - a));
  return R * c;
  \<close>
\<close>

record geo =
  latitude :: real
  longitude :: real

definition atan2 :: "real \<Rightarrow> real \<Rightarrow> real" where
  "atan2 y x =
     (if 0 < x then arctan (y / x)
      else if x < 0 then (if 0 \<le> y then arctan (y / x) + pi else arctan (y / x) - pi)
      else if 0 < y then pi / 2
      else if y < 0 then - pi / 2
      else 0)"

definition calculateDistance :: "geo \<Rightarrow> geo \<Rightarrow> real" where
  "calculateDistance coord1 coord2 =
     (let R = 6371000;
          lat1 = (latitude coord1 * pi) / 180;
          lat2 = (latitude coord2 * pi) / 180;
          deltaLat = ((latitude coord2 - latitude coord1) * pi) / 180;
          deltaLon = ((longitude coord2 - longitude coord1) * pi) / 180;
          a = sin (deltaLat / 2) * sin (deltaLat / 2) +
              cos lat1 * cos lat2 * sin (deltaLon / 2) * sin (deltaLon / 2);
          c = 2 * atan2 (sqrt a) (sqrt (1 - a))
      in R * c)"

section \<open>Distance in double precision\<close>

text \<open>
  In the arithmetic of the reals the sum \<open>a\<close> of \<open>calculateDistance\<close> lies between
  0 and 1 when the latitudes are in range; whether \<open>Math.sqrt(1 - a)\<close> can be given a
  negative argument is a question about rounding.  \<open>calculateDistance\<close> is therefore
  read a second time, in the arithmetic of the doubles (IEEE 754 binary64, rounding to
  nearest, ties to even): each \<open>+\<close>, \<open>-\<close>, \<open>*\<close> and \<open>/\<close> yields the double
  nearest to the exact result, or an infinity when that double would reach
  \<open>2^1024\<close>.  The sign of zero is not modelled.

  \<open>fl\<close> is the rounding: a real whose binary exponent is \<open>e\<close> is rounded to the
  nearest multiple of \<open>2^(e - 52)\<close>, and a real below \<open>2^(-1022)\<close> to the nearest
  multiple of \<open>2^(-1074)\<close>, the spacing of the subnormal doubles.  \<open>bits n\<close> is the
  number of binary digits of \<open>n\<close>, and \<open>exponent x\<close> the binary exponent of a
  positive real \<open>x\<close>, computed from the digits of its integer part or, below 1, of
  the integer part of its inverse.
\<close>

fun bits :: "nat \<Rightarrow> nat" where
  "bits n = (if n = 0 then 0 else Suc (bits (n div 2)))"

declare bits.simps [simp del]

definition exponent :: "real \<Rightarrow> int" where
  "exponent x =
     (if 1 \<le> x then int (bits (nat \<lfloor>x\<rfloor>)) - 1
      else - int (bits (nat (\<lceil>1 / x\<rceil> - 1))))"

definition pow2 :: "int \<Rightarrow> real" where
  "pow2 n = (if 0 \<le> n then 2 ^ nat n else 1 / 2 ^ nat (- n))"

definition rne :: "real \<Rightarrow> int" where
  "rne x =
     (let n = \<lfloor>x\<rfloor>; d = x - of_int n
      in if d < 1 / 2 then n else if 1 / 2 < d then n + 1 else if even n then n else n + 1)"

definition fl :: "real \<Rightarrow> real" where
  "fl x =
     (if x = 0 then 0
      else let e = max (exponent \<bar>x\<bar>) (- 1022); ulp = pow2 (e - 52)
           in of_int (rne (x / ulp)) * ulp)"

text \<open>Rounding with overflow, and the four operations on doubles.\<close>

fun round64 :: "jsnum \<Rightarrow> jsnum" where
  "round64 (Fin x) =
     (let y = fl x in if 2 ^ 1024 \<le> \<bar>y\<bar> then (if 0 < y then PInf else NInf) else Fin y)"
| "round64 v = v"

fun js_neg :: "jsnum \<Rightarrow> jsnum" where
  "js_neg (Fin a) = Fin (- a)"
| "js_neg PInf = NInf"
| "js_neg NInf = PInf"
| "js_neg NaN = NaN"

definition mul64 :: "jsnum \<Rightarrow> jsnum \<Rightarrow> jsnum" where
  "mul64 a b = round64 (js_mul a b)"

definition div64 :: "jsnum \<Rightarrow> jsnum \<Rightarrow> jsnum" where
  "div64 a b = round64 (js_div a b)"

definition add64 :: "jsnum \<Rightarrow> jsnum \<Rightarrow> jsnum" where
  "add64 a b = round64 (js_add a b)"

definition sub64 :: "jsnum \<Rightarrow> jsnum \<Rightarrow> jsnum" where
  "sub64 a b = round64 (js_add a (js_neg b))"

text \<open>\<open>Math.PI\<close> is the double nearest to \<open>\<pi>\<close>, 3.141592653589793.\<close>

definition Math_PI :: real where
  "Math_PI = 884279719003555 / 281474976710656"

text \<open>
  \<open>Math.sin\<close>, \<open>Math.cos\<close> and \<open>Math.atan2\<close> are implementation-approximated in
  ECMAScript: engines may differ in the last digit.  Their values on the doubles are a
  parameter of the reading; what the language fixes is kept: a NaN argument yields NaN,
  and so do the sine and the cosine of an infinity.  \<open>Math.sqrt\<close> is the rounded square
  root, and NaN below zero.
\<close>

record math =
  sinOf :: "real \<Rightarrow> real"
  cosOf :: "real \<Rightarrow> real"
  atan2Of :: "jsnum \<Rightarrow> jsnum \<Rightarrow> jsnum"

definition Math_sin :: "math \<Rightarrow> jsnum \<Rightarrow> jsnum" where
  "Math_sin m x = (case x of Fin v \<Rightarrow> Fin (sinOf m v) | _ \<Rightarrow> NaN)"

definition Math_cos :: "math \<Rightarrow> jsnum \<Rightarrow> jsnum" where
  "Math_cos m x = (case x of Fin v \<Rightarrow> Fin (cosOf m v) | _ \<Rightarrow> NaN)"

definition Math_sqrt :: "jsnum \<Rightarrow> jsnum" where
  "Math_sqrt x =
     (case x of
        Fin v \<Rightarrow> if v < 0 then NaN else Fin (fl (sqrt v))
      | PInf \<Rightarrow> PInf
      | _ \<Rightarrow> NaN)"

definition Math_atan2 :: "math \<Rightarrow> jsnum \<Rightarrow> jsnum \<Rightarrow> jsnum" where
  "Math_atan2 m y x = (if y = NaN \<or> x = NaN then NaN else atan2Of m y x)"

text \<open>
  The sum \<open>a\<close> and the distance, operation by operation as the source writes them
  (\<open>*\<close> associates to the left).  The fields of the coordinates are doubles.
  \<^verbatim>\<open>
  const lat1 = (coord1.latitude * Math.PI) / 180;
  const lat2 = (coord2.latitude * Math.PI) / 180;
  const deltaLat = ((coord2.latitude - coord1.latitude) * Math.PI) / 180;
  const deltaLon = ((coord2.longitude - coord1.longitude) * Math.PI) / 180;
  const a = Math.sin(deltaLat / 2) * Math.sin(deltaLat / 2) +
            Math.cos(lat1) * Math.cos(lat2) * Math.sin(deltaLon / 2) * Math.sin(deltaLon / 2);
  const c = 2 * Math.atan2(Math.sqrt(a), Math.sqrt(1 - a));
  return R * c;
  \<close>
\<close>

definition haversine64 :: "math \<Rightarrow> geo \<Rightarrow> geo \<Rightarrow> jsnum" where
  "haversine64 m coord1 coord2 =
     (let lat1 = div64 (mul64 (Fin (latitude coord1)) (Fin Math_PI)) (Fin 180);
          lat2 = div64 (mul64 (Fin (latitude coord2)) (Fin Math_PI)) (Fin 180);
          deltaLat = div64 (mul64 (sub64 (Fin (latitude coord2)) (Fin (latitude coord1)))
                                  (Fin Math_PI)) (Fin 180);
          deltaLon = div64 (mul64 (sub64 (Fin (longitude coord2)) (Fin (longitude coord1)))
                                  (Fin Math_PI)) (Fin 180)
      in add64 (mul64 (Math_sin m (div64 deltaLat (Fin 2))) (Math_sin m (div64 deltaLat (Fin 2))))
               (mul64 (mul64 (mul64 (Math_cos m lat1) (Math_cos m lat2))
                             (Math_sin m (div64 deltaLon (Fin 2))))
                      (Math_sin m (div64 deltaLon (Fin 2)))))"

definition calculateDistance64 :: "math \<Rightarrow> geo \<Rightarrow> geo \<Rightarrow> jsnum" where
  "calculateDistance64 m coord1 coord2 =
     (let R = Fin 6371000;
          a = haversine64 m coord1 coord2;
          c = mul64 (Fin 2) (Math_atan2 m (Math_sqrt a) (Math_sqrt (sub64 (Fin 1) a)))
      in mul64 R c)"

section \<open>Union-find\<close>

text \<open>
  The class \<open>UnionFind\<close>: two arrays indexed by \<open>0..size-1\<close>.  \<open>find\<close> is recursive
  with path compression; it returns no root (\<open>None\<close>) when the index lies outside the
  arrays (the source then yields \<open>undefined\<close>) or when the parent chain never reaches a
  fixed point (the recursion of the source does not return).
  \<^verbatim>\<open>
  find(x) {
    if (this.parent[x] !== x) {
      this.parent[x] = this.find(this.parent[x]); // Path compression
    }
    return this.parent[x];
  }
  \<close>
\<close>

record uf =
  parent :: "nat list"
  rank :: "nat list"

definition UnionFind_new :: "nat \<Rightarrow> uf" where
  "UnionFind_new n = \<lparr>parent = map (\<lambda>i. i) [0..<n], rank = replicate n 0\<rparr>"

partial_function (option) UnionFind_find :: "uf \<Rightarrow> nat \<Rightarrow> (uf \<times> nat) option" where
  "UnionFind_find u x =
     (if length (parent u) \<le> x then None
      else if parent u ! x \<noteq> x then
        Option.bind (UnionFind_find u (parent u ! x))
          (\<lambda>(u', r). let u'' = u'\<lparr>parent := (parent u')[x := r]\<rparr> in Some (u'', parent u'' ! x))
      else Some (u, parent u ! x))"

text \<open>
  \<^verbatim>\<open>
  union(x, y) {
    const rootX = this.find(x);
    const rootY = this.find(y);
    if (rootX === rootY) return;
    if (this.rank[rootX] < this.rank[rootY]) {
      this.parent[rootX] = rootY;
    } else if (this.rank[rootX] > this.rank[rootY]) {
      this.parent[rootY] = rootX;
    } else {
      this.parent[rootY] = rootX;
      this.rank[rootX]++;
    }
  }
  \<close>
\<close>

definition UnionFind_union :: "uf \<Rightarrow> nat \<Rightarrow> nat \<Rightarrow> uf option" where
  "UnionFind_union u x y =
     Option.bind (UnionFind_find u x) (\<lambda>(u1, rootX).
     Option.bind (UnionFind_find u1 y) (\<lambda>(u2, rootY).
       if rootX = rootY then Some u2
       else if rank u2 ! rootX < rank u2 ! rootY then
         Some (u2\<lparr>parent := (parent u2)[rootX := rootY]\<rparr>)
       else if rank u2 ! rootX > rank u2 ! rootY then
         Some (u2\<lparr>parent := (parent u2)[rootY := rootX]\<rparr>)
       else
         Some (u2\<lparr>parent := (parent u2)[rootY := rootX],
                  rank := (rank u2)[rootX := rank u2 ! rootX + 1]\<rparr>)))"

text \<open>A sequence of calls on one structure, threaded through the state.\<close>

datatype uf_op = OpFind nat | OpUnion nat nat

fun uf_run :: "uf \<Rightarrow> uf_op list \<Rightarrow> uf option" where
  "uf_run u [] = Some u"
| "uf_run u (OpFind x # ops) = Option.bind (UnionFind_find u x) (\<lambda>(u', r). uf_run u' ops)"
| "uf_run u (OpUnion x y # ops) = Option.bind (UnionFind_union u x y) (\<lambda>u'. uf_run u' ops)"

fun op_ok :: "nat \<Rightarrow> uf_op \<Rightarrow> bool" where
  "op_ok n (OpFind x) = (x < n)"
| "op_ok n (OpUnion x y) = (x < n \<and> y < n)"

text \<open>
  What the parent array means: \<open>root_of p x r\<close> when the parent chain of \<open>x\<close> ends,
  after finitely many steps, in the fixed point \<open>r\<close>.  Two indices are in the same set
  when their chains end in the same fixed point.
\<close>

inductive root_of :: "nat list \<Rightarrow> nat \<Rightarrow> nat \<Rightarrow> bool" for p :: "nat list" where
  root: "x < length p \<Longrightarrow> p ! x = x \<Longrightarrow> root_of p x x"
| step: "x < length p \<Longrightarrow> p ! x \<noteq> x \<Longrightarrow> root_of p (p ! x) r \<Longrightarrow> root_of p x r"

code_pred root_of .

definition same_set :: "uf \<Rightarrow> nat \<Rightarrow> nat \<Rightarrow> bool" where
  "same_set u x y = (\<exists>r. root_of (parent u) x r \<and> root_of (parent u) y r)"

text \<open>
  The invariant behind termination: parents stay inside the arrays, and the rank grows
  strictly along every parent link.
\<close>

definition uf_inv :: "uf \<Rightarrow> bool" where
  "uf_inv u =
     (length (rank u) = length (parent u) \<and>
      (\<forall>i < length (parent u).
         parent u ! i < length (parent u) \<and>
         (parent u ! i \<noteq> i \<longrightarrow> rank u ! i < rank u ! (parent u ! i))))"

section \<open>Grid index\<close>

text \<open>
  \<open>createGridIndex\<close> and the comparison loop read only the coordinates of the events
  that passed validation, so they take the list of those coordinates.  A cell key is the
  string built from \<open>row\<close> and \<open>col\<close>; two keys are equal exactly when both
  numbers are, so a key is modelled as the pair.  The grid is a \<open>Map\<close> from keys to
  arrays of indices.
  \<^verbatim>\<open>
  const row = Math.floor(lat / degreesPerCell);
  const col = Math.floor(lon / degreesPerCell);
  \<close>
\<close>

type_synonym cell = "jsnum \<times> jsnum"
type_synonym grid = "(cell \<times> nat list) list"

definition cellOf :: "jsnum \<Rightarrow> geo \<Rightarrow> cell" where
  "cellOf degreesPerCell c =
     (let lat = Fin (latitude c); lon = Fin (longitude c);
          row = js_floor (js_div lat degreesPerCell);
          col = js_floor (js_div lon degreesPerCell)
      in (row, col))"

text \<open>
  \<^verbatim>\<open>
  if (!grid.has(key)) { grid.set(key, []); }
  grid.get(key).push(index);
  \<close>
\<close>

definition gridPush :: "cell \<Rightarrow> nat \<Rightarrow> grid \<Rightarrow> grid" where
  "gridPush key index grid =
     (let grid' = (if map_of grid key = None then AList.update key [] grid else grid)
      in case map_of grid' key of
           Some xs \<Rightarrow> AList.update key (xs @ [index]) grid'
         | None \<Rightarrow> grid')"

definition createGridIndex :: "geo list \<Rightarrow> jsnum \<Rightarrow> grid \<times> jsnum" where
  "createGridIndex events radiusInMeters =
     (let earthCircumference = 40075000;
          degPerMeter = 360 / earthCircumference;
          degreesPerCell = js_mul radiusInMeters (Fin degPerMeter);
          grid = fold (\<lambda>(event, index). gridPush (cellOf degreesPerCell event) index)
                   (zip events [0..<length events]) []
      in (grid, degreesPerCell))"

text \<open>
  \<^verbatim>\<open>
  for (let i = -1; i <= 1; i++) {
    for (let j = -1; j <= 1; j++) {
      const key = (row + i) + ',' + (col + j);
      if (grid.has(key)) { indices.push(...grid.get(key)); }
    }
  }
  \<close>
\<close>

definition getNearbyIndices :: "grid \<Rightarrow> jsnum \<Rightarrow> jsnum \<Rightarrow> nat list" where
  "getNearbyIndices grid row col =
     concat (map (\<lambda>(i, j).
        case map_of grid (js_add row (Fin i), js_add col (Fin j)) of
          Some xs \<Rightarrow> xs
        | None \<Rightarrow> [])
       [(i, j). i \<leftarrow> [- 1, 0, 1], j \<leftarrow> [- 1, 0, 1]])"

section \<open>Cluster orchestration\<close>

text \<open>
  A call either throws or returns an array; the warnings written to the console before
  that are part of what it did.  The whole outcome is optional only because
  \<open>UnionFind_find\<close> is: \<open>None\<close> would be a call that does not return.
\<close>

datatype error = Error string | TypeError

record outcome =
  warnings :: "string list"
  result :: "error + jsval list"

text \<open>
  What the call takes from its runtime: the clock and the random string read by the
  \<open>k\<close>-th call of \<open>generateClusterId\<close>, and the conversion of a value to a string in
  a template literal.  (In the quotations of the source, a template literal is written as
  the concatenation it denotes.)
  \<^verbatim>\<open>
  function generateClusterId() {
    return 'cluster_' + Date.now() + '_' + Math.random().toString(36).substr(2, 9);
  }
  \<close>
\<close>

record env =
  now :: "nat \<Rightarrow> nat"
  random36 :: "nat \<Rightarrow> string"
  toString :: "jsval \<Rightarrow> string"

fun digits :: "nat \<Rightarrow> string" where
  "digits n =
     (if n < 10 then [''0123456789'' ! n]
      else digits (n div 10) @ [''0123456789'' ! (n mod 10)])"

declare digits.simps [simp del]

definition generateClusterId :: "env \<Rightarrow> nat \<Rightarrow> string" where
  "generateClusterId env k = ''cluster_'' @ digits (now env k) @ ''_'' @ random36 env k"

text \<open>
  The filter loop of \<open>clusterEvents\<close>.  Reading \<open>event.coordinates\<close> of an element
  that is \<open>null\<close> or \<open>undefined\<close> throws a TypeError, which ends the call.
  \<^verbatim>\<open>
  for (const event of events) {
    if (!event.coordinates || !isValidCoordinate(event.coordinates)) {
      const eventId = event.id ? ' (ID: ' + event.id + ')' : '';
      console.warn('Skipping event with invalid coordinates' + eventId);
      continue;
    }
    validEvents.push(event);
  }
  \<close>
\<close>

definition invalidEvent :: "jsval \<Rightarrow> bool" where
  "invalidEvent event =
     (\<not> truthy (getProp event ''coordinates'') \<or>
      \<not> isValidCoordinate (getProp event ''coordinates''))"

definition skipWarning :: "env \<Rightarrow> jsval \<Rightarrow> string" where
  "skipWarning env event =
     (let eventId = (if truthy (getProp event ''id'')
                     then '' (ID: '' @ toString env (getProp event ''id'') @ '')'' else [])
      in ''Skipping event with invalid coordinates'' @ eventId)"

fun filterEvents :: "env \<Rightarrow> jsval list \<Rightarrow> string list \<times> (error + jsval list)" where
  "filterEvents env [] = ([], Inr [])"
| "filterEvents env (event # rest) =
     (if event = Null \<or> event = Undefined then ([], Inl TypeError)
      else if invalidEvent event then
        (let (ws, r) = filterEvents env rest in (skipWarning env event # ws, r))
      else
        (let (ws, r) = filterEvents env rest in (ws, map_sum id ((#) event) r)))"

text \<open>
  The coordinates of an event that passed the filter: both fields are finite numbers there
  (lemma \<open>valid_fields_finite\<close>), so the default of \<open>finiteOf\<close> is never taken.
\<close>

fun finiteOf :: "jsval \<Rightarrow> real" where
  "finiteOf (JNum (Fin x)) = x"
| "finiteOf _ = 0"

definition coordsOf :: "jsval \<Rightarrow> geo" where
  "coordsOf event =
     (let c = getProp event ''coordinates''
      in \<lparr>latitude = finiteOf (getProp c ''latitude''),
          longitude = finiteOf (getProp c ''longitude'')\<rparr>)"

text \<open>
  The comparison loops.  Every index held by the grid is a position of \<open>validEvents\<close>
  (lemma \<open>createGridIndex_below\<close>), so the reads \<open>validEvents[i]\<close> and
  \<open>validEvents[j]\<close> are in range.
  \<^verbatim>\<open>
  for (let i = 0; i < n; i++) {
    ...
    const nearbyIndices = getNearbyIndices(grid, row, col);
    for (const j of nearbyIndices) {
      if (i < j) {
        const distance = calculateDistance(validEvents[i].coordinates, validEvents[j].coordinates);
        if (distance <= radiusInMeters) { unionFind.union(i, j); }
      }
    }
  }
  \<close>
\<close>

fun unionNearby :: "geo list \<Rightarrow> jsnum \<Rightarrow> nat \<Rightarrow> nat list \<Rightarrow> uf \<Rightarrow> uf option" where
  "unionNearby cs radiusInMeters i [] u = Some u"
| "unionNearby cs radiusInMeters i (j # js) u =
     (if i < j \<and> js_le (Fin (calculateDistance (cs ! i) (cs ! j))) radiusInMeters
      then Option.bind (UnionFind_union u i j) (unionNearby cs radiusInMeters i js)
      else unionNearby cs radiusInMeters i js u)"

fun unionLoop :: "geo list \<Rightarrow> jsnum \<Rightarrow> grid \<Rightarrow> jsnum \<Rightarrow> nat list \<Rightarrow> uf \<Rightarrow> uf option" where
  "unionLoop cs radiusInMeters grid degreesPerCell [] u = Some u"
| "unionLoop cs radiusInMeters grid degreesPerCell (i # is) u =
     (let (row, col) = cellOf degreesPerCell (cs ! i);
          nearbyIndices = getNearbyIndices grid row col
      in Option.bind (unionNearby cs radiusInMeters i nearbyIndices u)
           (unionLoop cs radiusInMeters grid degreesPerCell is))"

definition unionPhase :: "geo list \<Rightarrow> jsnum \<Rightarrow> uf option" where
  "unionPhase cs radiusInMeters =
     (let n = length cs;
          unionFind = UnionFind_new n;
          (grid, degreesPerCell) = createGridIndex cs radiusInMeters
      in unionLoop cs radiusInMeters grid degreesPerCell [0..<n] unionFind)"

text \<open>
  Labelling: \<open>{...event, clusterId: v}\<close> keeps the properties of the event in order and
  sets \<open>clusterId\<close>, in place when the event has one and at the end otherwise.  The map
  \<open>rootToClusterId\<close> and the number \<open>k\<close> of labels generated so far are threaded
  through the \<open>map\<close> callback.
  \<^verbatim>\<open>
  const clusteredEvents = validEvents.map((event, index) => {
    const root = unionFind.find(index);
    if (!rootToClusterId.has(root)) { rootToClusterId.set(root, generateClusterId()); }
    return { ...event, clusterId: rootToClusterId.get(root) };
  });
  \<close>
\<close>

definition withClusterId :: "jsval \<Rightarrow> jsval \<Rightarrow> jsval" where
  "withClusterId event clusterId = JObj (AList.update ''clusterId'' clusterId (ownProps event))"

fun assignLabels ::
  "env \<Rightarrow> (jsval \<times> nat) list \<Rightarrow> uf \<Rightarrow> (nat \<times> string) list \<Rightarrow> nat \<Rightarrow> jsval list option" where
  "assignLabels env [] u rootToClusterId k = Some []"
| "assignLabels env ((event, index) # rest) u rootToClusterId k =
     Option.bind (UnionFind_find u index) (\<lambda>(u', root).
       let (m, k') = (if map_of rootToClusterId root = None
                      then (AList.update root (generateClusterId env k) rootToClusterId, Suc k)
                      else (rootToClusterId, k));
           clusterId = (case map_of m root of Some l \<Rightarrow> JStr l | None \<Rightarrow> Undefined)
       in Option.bind (assignLabels env rest u' m k')
            (\<lambda>out. Some (withClusterId event clusterId # out)))"

definition clusterValid :: "env \<Rightarrow> jsval list \<Rightarrow> jsnum \<Rightarrow> jsval list option" where
  "clusterValid env validEvents radiusInMeters =
     Option.bind (unionPhase (map coordsOf validEvents) radiusInMeters)
       (\<lambda>unionFind. assignLabels env (zip validEvents [0..<length validEvents]) unionFind [] 0)"

text \<open>
  \<^verbatim>\<open>
  function clusterEvents(events, radiusInMeters) {
    if (!Array.isArray(events)) { throw new Error('Events must be an array'); }
    if (typeof radiusInMeters !== 'number' || radiusInMeters <= 0) {
      throw new Error('Radius must be a positive number');
    }
    if (events.length === 0) { return []; }
    ... filter ...
    if (validEvents.length === 0) { return []; }
    ... union, label ...
  }
  \<close>
\<close>

definition clusterEvents :: "env \<Rightarrow> jsval \<Rightarrow> jsval \<Rightarrow> outcome option" where
  "clusterEvents env events radiusInMeters =
     (case events of
        JArr evs \<Rightarrow>
          (case radiusInMeters of
             JNum radius \<Rightarrow>
               if js_le radius (Fin 0) then
                 Some \<lparr>warnings = [], result = Inl (Error ''Radius must be a positive number'')\<rparr>
               else if length evs = 0 then Some \<lparr>warnings = [], result = Inr []\<rparr>
               else
                 (case filterEvents env evs of
                    (ws, Inl e) \<Rightarrow> Some \<lparr>warnings = ws, result = Inl e\<rparr>
                  | (ws, Inr validEvents) \<Rightarrow>
                      if length validEvents = 0 then Some \<lparr>warnings = ws, result = Inr []\<rparr>
                      else map_option (\<lambda>out. \<lparr>warnings = ws, result = Inr out\<rparr>)
                             (clusterValid env validEvents radius))
           | _ \<Rightarrow> Some \<lparr>warnings = [], result = Inl (Error ''Radius must be a positive number'')\<rparr>)
      | _ \<Rightarrow> Some \<lparr>warnings = [], result = Inl (Error ''Events must be an array'')\<rparr>)"

subsection \<open>Vocabulary of the statements\<close>



definition clusterIdOf :: "jsval \<Rightarrow> jsval" where
  "clusterIdOf out = getProp out ''clusterId''"

fun arrayLength :: "jsval \<Rightarrow> nat" where
  "arrayLength (JArr evs) = length evs"
| "arrayLength _ = 0"

definition sameGrouping :: "jsval list \<Rightarrow> jsval list \<Rightarrow> bool" where
  "sameGrouping a b =
     (length a = length b \<and>
      (\<forall>i < length a. \<forall>name. name \<noteq> ''clusterId'' \<longrightarrow>
         getProp (a ! i) name = getProp (b ! i) name) \<and>
      (\<forall>i < length a. \<forall>j < length a.
         (clusterIdOf (a ! i) = clusterIdOf (a ! j)) = (clusterIdOf (b ! i) = clusterIdOf (b ! j))))"

fun sameOutcome :: "error + jsval list \<Rightarrow> error + jsval list \<Rightarrow> bool" where
  "sameOutcome (Inl e1) (Inl e2) = (e1 = e2)"
| "sameOutcome (Inr a) (Inr b) = sameGrouping a b"
| "sameOutcome _ _ = False"

text \<open>Auxiliary invariants of the proofs: a grid over \<open>n\<close> events, an injective label map.\<close>

definition grid_below :: "nat \<Rightarrow> grid \<Rightarrow> bool" where
  "grid_below n grid = (\<forall>key xs. map_of grid key = Some xs \<longrightarrow> (\<forall>j \<in> set xs. j < n))"

definition inj_map :: "(nat \<rightharpoonup> nat) \<Rightarrow> bool" where
  "inj_map J = (\<forall>r1 r2 j. J r1 = Some j \<and> J r2 = Some j \<longrightarrow> r1 = r2)"

section \<open>Objects in a store\<close>

text \<open>
  JavaScript holds objects and arrays by reference: the array given to \<open>clusterEvents\<close>
  and the events in it are objects that the caller still holds after the call.  To state
  what the call does to them, \<open>clusterEvents\<close> is read a second time, on an explicit
  store.  The store is the list of the objects and arrays that exist, addressed by
  position; creating an object or an array (\<open>[]\<close>, \<open>{...}\<close>, the array built by
  \<open>map\<close>) appends to the list, and only an assignment to a property or to an element
  could change an entry that exists.  A variable or an array element holds a reference into
  the store, or a value that has no identity there (\<open>Val\<close>: a primitive value, or a
  value given by its content).  A property holds a value: the service never writes to a
  property, so an object nested in one (\<open>coordinates\<close>) is kept by its content.
\<close>

type_synonym addr = nat

datatype sval = Ref addr | Val jsval

datatype obj = Object "(string \<times> jsval) list" | Array "sval list"

type_synonym store = "obj list"




text \<open>
  A call leaves a store, the warnings it wrote, and either the error it threw or the
  address of the array it returned.  (The error object of a \<open>throw\<close> is not entered
  in the store.)
\<close>

record run =
  stored :: store
  warned :: "string list"
  returned :: "error + addr"






section \<open>The geocoding cache\<close>

text \<open>
  \<open>LRUCache<K, V>\<close> (services/geocoding/LRUCache.ts) keeps its entries in a
  \<open>Map\<close>, whose iteration order is insertion order: the model is the list of entries
  in that order.  \<open>Map.delete\<close> is \<open>AList.delete\<close>; \<open>Map.set\<close> is \<open>AList.update\<close>,
  which appends a new key.  The capacity is a number of entries.
  \<^verbatim>\<open>
  get(key: K): V | undefined {
    if (!this.cache.has(key)) { return undefined; }
    const value = this.cache.get(key)!;
    this.cache.delete(key);
    this.cache.set(key, value);
    return value;
  }
  set(key: K, value: V): void {
    if (this.cache.has(key)) {
      this.cache.delete(key);
    } else if (this.cache.size >= this.capacity) {
      const firstKey = this.cache.keys().next().value;
      this.cache.delete(firstKey);
    }
    this.cache.set(key, value);
  }
  \<close>
\<close>

record ('k, 'v) lru =
  cache :: "('k \<times> 'v) list"
  capacity :: nat

definition LRUCache_new :: "nat \<Rightarrow> ('k, 'v) lru" where
  "LRUCache_new cap = \<lparr>cache = [], capacity = cap\<rparr>"

definition LRUCache_get :: "('k, 'v) lru \<Rightarrow> 'k \<Rightarrow> 'v option \<times> ('k, 'v) lru" where
  "LRUCache_get c key =
     (case map_of (cache c) key of
        None \<Rightarrow> (None, c)
      | Some v \<Rightarrow> (Some v, c\<lparr>cache := AList.update key v (AList.delete key (cache c))\<rparr>))"

definition LRUCache_set :: "('k, 'v) lru \<Rightarrow> 'k \<Rightarrow> 'v \<Rightarrow> ('k, 'v) lru" where
  "LRUCache_set c key v =
     (let m = (if map_of (cache c) key \<noteq> None then AList.delete key (cache c)
               else if capacity c \<le> length (cache c) then
                 (case cache c of [] \<Rightarrow> [] | (firstKey, _) # _ \<Rightarrow> AList.delete firstKey (cache c))
               else cache c)
      in c\<lparr>cache := AList.update key v m\<rparr>)"

definition LRUCache_delete :: "('k, 'v) lru \<Rightarrow> 'k \<Rightarrow> ('k, 'v) lru" where
  "LRUCache_delete c key = c\<lparr>cache := AList.delete key (cache c)\<rparr>"

definition LRUCache_clear :: "('k, 'v) lru \<Rightarrow> ('k, 'v) lru" where
  "LRUCache_clear c = c\<lparr>cache := []\<rparr>"

definition LRUCache_size :: "('k, 'v) lru \<Rightarrow> nat" where
  "LRUCache_size c = length (cache c)"

text \<open>A sequence of calls on a new cache.\<close>

datatype ('k, 'v) cache_op = OpGet 'k | OpSet 'k 'v | OpDelete 'k | OpClear

fun cache_step :: "('k, 'v) cache_op \<Rightarrow> ('k, 'v) lru \<Rightarrow> ('k, 'v) lru" where
  "cache_step (OpGet k) c = snd (LRUCache_get c k)"
| "cache_step (OpSet k v) c = LRUCache_set c k v"
| "cache_step (OpDelete k) c = LRUCache_delete c k"
| "cache_step OpClear c = LRUCache_clear c"

definition cache_run :: "nat \<Rightarrow> ('k, 'v) cache_op list \<Rightarrow> ('k, 'v) lru" where
  "cache_run cap ops = fold cache_step ops (LRUCache_new cap)"

text \<open>
  Recency, read off the sequence of calls alone: \<open>lastUse ops k\<close> is the position
  (counted from 1) of the last \<open>get\<close> or \<open>set\<close> of the key \<open>k\<close> in \<open>ops\<close>, and 0
  when there is none.
\<close>

fun touches :: "('k, 'v) cache_op \<Rightarrow> 'k \<Rightarrow> bool" where
  "touches (OpGet k) k' = (k = k')"
| "touches (OpSet k v) k' = (k = k')"
| "touches _ k' = False"

fun lastUseFrom :: "nat \<Rightarrow> ('k, 'v) cache_op list \<Rightarrow> 'k \<Rightarrow> nat" where
  "lastUseFrom i [] k = 0"
| "lastUseFrom i (op # ops) k =
     (let later = lastUseFrom (Suc i) ops k
      in if later \<noteq> 0 then later else if touches op k then Suc i else 0)"

definition lastUse :: "('k, 'v) cache_op list \<Rightarrow> 'k \<Rightarrow> nat" where
  "lastUse ops k = lastUseFrom 0 ops k"

definition lru_inv :: "nat \<Rightarrow> ('k, 'v) cache_op list \<Rightarrow> ('k, 'v) lru \<Rightarrow> bool" where
  "lru_inv cap ops c =
     (capacity c = cap \<and> length (cache c) \<le> cap \<and> distinct (map fst (cache c)) \<and>
      sorted_wrt (\<lambda>a b. lastUse ops a < lastUse ops b) (map fst (cache c)))"

section \<open>Sample data\<close>

text \<open>
  Two runtimes whose labels differ, a third in which the clock and the random string
  repeat, and the events used in the concrete evaluations below: the events of the unit
  tests of the service, two events on the parallel of 60 degrees north that are some
  510 m apart, an event whose identifier is 0, and an event that already carries a label.
\<close>

definition envA :: env where
  "envA = \<lparr>now = (\<lambda>k. 1700000000000), random36 = digits,
           toString = (\<lambda>v. case v of
              JStr s \<Rightarrow> s
            | JNum (Fin x) \<Rightarrow>
                if 0 \<le> x \<and> of_int \<lfloor>x\<rfloor> = x then digits (nat \<lfloor>x\<rfloor>) else ''?''
            | _ \<Rightarrow> ''?'')\<rparr>"

definition envB :: env where
  "envB = envA\<lparr>now := (\<lambda>k. 1700000000001)\<rparr>"

definition envC :: env where
  "envC = envA\<lparr>random36 := (\<lambda>k. ''k3j9x2m1q'')\<rparr>"

definition nyc :: jsval where
  "nyc = JObj [(''id'', JNum (Fin 1)),
     (''coordinates'',
      JObj [(''latitude'', JNum (Fin 40.7128)), (''longitude'', JNum (Fin (- 74.0060)))])]"

definition noCoordinates :: jsval where
  "noCoordinates = JObj [(''id'', JNum (Fin 2))]"

definition outOfRange :: jsval where
  "outOfRange = JObj [(''id'', JNum (Fin 3)),
     (''coordinates'', JObj [(''latitude'', JNum (Fin 91)), (''longitude'', JNum (Fin 200))])]"

definition helsinkiA :: jsval where
  "helsinkiA = JObj [(''id'', JNum (Fin 1)),
     (''coordinates'', JObj [(''latitude'', JNum (Fin 60)), (''longitude'', JNum (Fin 25.0001))])]"

definition helsinkiB :: jsval where
  "helsinkiB = JObj [(''id'', JNum (Fin 2)),
     (''coordinates'', JObj [(''latitude'', JNum (Fin 60)), (''longitude'', JNum (Fin 25.0093))])]"

definition zeroIdEvent :: jsval where
  "zeroIdEvent = JObj [(''id'', JNum (Fin 0))]"

definition relabelled :: jsval where
  "relabelled = JObj [(''id'', JStr ''e7''),
     (''coordinates'',
      JObj [(''latitude'', JNum (Fin 40.7128)), (''longitude'', JNum (Fin (- 74.0060)))]),
     (''clusterId'', JStr ''cluster_old'')]"


text \<open>
  Two events at antipodal points, and a \<open>Math\<close> library for them.  At the arguments
  that occur between the two events it returns the doubles nearest to the exact values,
  which both fdlibm and the GNU C library return: the sine of 0.13962634015954636 is
  0.13917310096006544, its cosine is 0.9902680687415704, and the sine of
  1.5707963267948966 is 1.  Elsewhere, where it is not read, it returns the rounded value
  of the function on finite arguments.
\<close>

definition antipodeA :: jsval where
  "antipodeA = JObj [(''id'', JNum (Fin 1)),
     (''coordinates'', JObj [(''latitude'', JNum (Fin (- 8))), (''longitude'', JNum (Fin (- 180)))])]"

definition antipodeB :: jsval where
  "antipodeB = JObj [(''id'', JNum (Fin 2)),
     (''coordinates'', JObj [(''latitude'', JNum (Fin 8)), (''longitude'', JNum (Fin 0))])]"

definition libmValues :: math where
  "libmValues =
     \<lparr>sinOf = (\<lambda>x. if x = fl 0.13962634015954636 then fl 0.13917310096006544
                   else if x = fl 1.5707963267948966 then 1
                   else fl (sin x)),
      cosOf = (\<lambda>x. if \<bar>x\<bar> = fl 0.13962634015954636 then fl 0.9902680687415704
                   else fl (cos x)),
      atan2Of = (\<lambda>y x. case (y, x) of
                   (Fin p, Fin q) \<Rightarrow> Fin (fl (atan2 p q))
                 | _ \<Rightarrow> NaN)\<rparr>"

section \<open>Properties of the coordinate validator\<close>

text \<open>
  Claim C4.  \<open>isValidCoordinate\<close> answers true exactly for an object whose
  \<open>latitude\<close> and \<open>longitude\<close> are finite numbers with
  \<open>-90 <= latitude <= 90\<close> and \<open>-180 <= longitude <= 180\<close>, bounds included;
  on every other value (absent, not an object, a field missing or not a number, NaN,
  an infinity, out of range) it answers false.
\<close>
theorem isValidCoordinate_iff:
  "isValidCoordinate coord =
     (\<exists>fs lat lon. coord = JObj fs \<and>
        map_of fs ''latitude'' = Some (JNum (Fin lat)) \<and>
        map_of fs ''longitude'' = Some (JNum (Fin lon)) \<and>
        - 90 \<le> lat \<and> lat \<le> 90 \<and> - 180 \<le> lon \<and> lon \<le> 180)"
proof (cases coord)
  case (JObj fs)
  show ?thesis
  proof (cases "map_of fs ''latitude''")
    case None
    then show ?thesis by (simp add: isValidCoordinate_def JObj)
  next
    case (Some a)
    note lat = this
    show ?thesis
    proof (cases "map_of fs ''longitude''")
      case None
      then show ?thesis
        by (simp add: isValidCoordinate_def JObj lat split: jsval.splits)
    next
      case (Some b)
      have "(case (a, b) of (JNum x, JNum y) \<Rightarrow>
               js_ge x (Fin (- 90)) \<and> js_le x (Fin 90) \<and>
               js_ge y (Fin (- 180)) \<and> js_le y (Fin 180)
             | _ \<Rightarrow> False) =
            (\<exists>x y. a = JNum (Fin x) \<and> b = JNum (Fin y) \<and>
               - 90 \<le> x \<and> x \<le> 90 \<and> - 180 \<le> y \<and> y \<le> 180)"
      proof (cases a)
        case (JNum x)
        note a = this
        show ?thesis
        proof (cases b)
          case (JNum y)
          show ?thesis
            unfolding a JNum by (cases x; cases y) (simp_all add: js_ge_def)
        qed (simp_all add: a)
      qed simp_all
      then show ?thesis
        by (simp add: isValidCoordinate_def JObj lat Some)
    qed
  qed
qed (simp_all add: isValidCoordinate_def)

lemma valid_fields_finite:
  assumes "isValidCoordinate c"
  shows "\<exists>lat lon. getProp c ''latitude'' = JNum (Fin lat) \<and> getProp c ''longitude'' = JNum (Fin lon)"
proof -
  from assms obtain x y where xy: "getProp c ''latitude'' = JNum x" "getProp c ''longitude'' = JNum y"
    by (auto simp: isValidCoordinate_def split: if_splits jsval.splits)
  with assms have "js_ge x (Fin (- 90))" "js_le x (Fin 90)" "js_ge y (Fin (- 180))" "js_le y (Fin 180)"
    by (simp_all add: isValidCoordinate_def split: if_splits)
  then have "(\<exists>a. x = Fin a) \<and> (\<exists>b. y = Fin b)"
    by (cases x; cases y) (simp_all add: js_ge_def)
  with xy show ?thesis by auto
qed

lemma isValidCoordinate_truthy: "isValidCoordinate c \<Longrightarrow> truthy c"
  by (simp add: isValidCoordinate_def split: if_splits)

lemma invalidEvent_iff: "invalidEvent e = (\<not> isValidCoordinate (getProp e ''coordinates''))"
  by (auto simp: invalidEvent_def dest: isValidCoordinate_truthy)

section \<open>Properties of the distance\<close>

text \<open>
  Upper bounds in exact arithmetic.  The tangent lies above the identity on
  \<open>[0, pi/2)\<close>, so the arc tangent lies below it on the non-negative reals.
\<close>

lemma tan_ge_self:
  assumes "0 \<le> x" "x < pi / 2"
  shows "x \<le> tan x"
proof -
  have "(\<lambda>y. tan y - y) 0 \<le> (\<lambda>y. tan y - y) x"
  proof (rule DERIV_nonneg_imp_nondecreasing [OF assms(1)])
    fix y :: real
    assume y: "0 \<le> y" "y \<le> x"
    with assms have "0 < cos y" by (intro cos_gt_zero_pi) auto
    then have c: "cos y \<noteq> 0" by simp
    have d: "((\<lambda>y. tan y - y) has_real_derivative (inverse ((cos y)\<^sup>2) - 1)) (at y)"
      using c by (auto intro!: derivative_eq_intros)
    from \<open>0 < cos y\<close> have "(cos y)\<^sup>2 \<le> 1" "0 < (cos y)\<^sup>2"
      by (simp_all add: abs_square_le_1 power2_le_iff_abs_le)
    then have "1 \<le> inverse ((cos y)\<^sup>2)" by (simp add: one_le_inverse)
    with d show "\<exists>d. ((\<lambda>y. tan y - y) has_real_derivative d) (at y) \<and> 0 \<le> d"
      by (intro exI [of _ "inverse ((cos y)\<^sup>2) - 1"]) simp
  qed
  then show ?thesis by simp
qed

lemma arctan_le_arg:
  assumes "0 \<le> t"
  shows "arctan t \<le> t"
proof -
  from assms have "0 \<le> arctan t" by simp
  moreover have "arctan t < pi / 2" by (rule arctan_ubound)
  ultimately have "arctan t \<le> tan (arctan t)" by (rule tan_ge_self)
  then show ?thesis by (simp add: tan_arctan)
qed

lemma calculateDistance_same_latitude:
  "calculateDistance \<lparr>latitude = p, longitude = l1\<rparr> \<lparr>latitude = p, longitude = l2\<rparr> =
     6371000 * (2 * atan2 (sqrt ((cos (p * pi / 180) * sin ((l2 - l1) * pi / 180 / 2))\<^sup>2))
                          (sqrt (1 - (cos (p * pi / 180) * sin ((l2 - l1) * pi / 180 / 2))\<^sup>2)))"
  by (simp add: calculateDistance_def Let_def power2_eq_square mult_ac)

lemma haversine_small:
  fixes h :: real
  assumes "0 \<le> h" "h \<le> b" "b \<le> 1 / 2"
  shows "2 * atan2 (sqrt (h\<^sup>2)) (sqrt (1 - h\<^sup>2)) \<le> 2 * (b / (43 / 50))"
proof -
  from assms have h2: "h\<^sup>2 \<le> (1 / 2)\<^sup>2" by (intro power_mono) auto
  then have "(43 / 50)\<^sup>2 \<le> 1 - h\<^sup>2" by (simp add: power2_eq_square)
  then have s: "43 / 50 \<le> sqrt (1 - h\<^sup>2)" by (rule real_le_rsqrt)
  then have pos: "0 < sqrt (1 - h\<^sup>2)" by linarith
  have "atan2 h (sqrt (1 - h\<^sup>2)) = arctan (h / sqrt (1 - h\<^sup>2))"
    using pos by (simp add: atan2_def)
  also have "\<dots> \<le> h / sqrt (1 - h\<^sup>2)"
    using assms pos by (intro arctan_le_arg) simp
  also have "\<dots> \<le> b / (43 / 50)"
    using assms s pos by (intro frac_le) auto
  finally show ?thesis using assms(1) by simp
qed

text \<open>
  Two points on the parallel of 60 degrees north, 0.0092 degrees of longitude apart, are
  less than 1000 m from each other (about 511 m).
\<close>

lemma distance_60_north:
  "calculateDistance \<lparr>latitude = 60, longitude = 25.0001\<rparr> \<lparr>latitude = 60, longitude = 25.0093\<rparr>
     \<le> 1000"
proof -
  define y :: real where "y = (25.0093 - 25.0001) * pi / 180 / 2"
  have y0: "0 \<le> y" by (simp add: y_def)
  have y1: "y \<le> 92 / 900000" using pi_less_4 by (simp add: y_def)
  define h where "h = cos (60 * pi / 180) * sin y"
  from y0 y1 pi_ge_two have "0 \<le> sin y" by (intro sin_ge_zero) auto
  moreover from y0 have "sin y \<le> y" by (rule sin_x_le_x)
  ultimately have h: "0 \<le> h" "h \<le> 92 / 1800000" using y1 by (simp_all add: h_def cos_60)
  have "2 * atan2 (sqrt (h\<^sup>2)) (sqrt (1 - h\<^sup>2)) \<le> 2 * ((92 / 1800000) / (43 / 50))"
    using h by (intro haversine_small) auto
  then have "6371000 * (2 * atan2 (sqrt (h\<^sup>2)) (sqrt (1 - h\<^sup>2))) \<le> 1000" by simp
  then show ?thesis
    unfolding calculateDistance_same_latitude h_def y_def .
qed

text \<open>
  In the arithmetic of the reals \<open>calculateDistance\<close> is well defined on coordinates
  whose latitudes are in range: the distance between a point and itself is 0, the sum
  \<open>a\<close> lies between 0 and 1, and the distance is not negative.
\<close>

lemma calculateDistance_identical: "calculateDistance c c = 0"
  by (simp add: calculateDistance_def atan2_def)

lemma atan2_nonneg: "0 \<le> y \<Longrightarrow> 0 \<le> atan2 y x"
proof -
  assume y: "0 \<le> y"
  show ?thesis
  proof (cases "0 < x")
    case True
    with y have "0 \<le> y / x" by simp
    then have "0 \<le> arctan (y / x)" by (simp only: zero_le_arctan_iff)
    with True show ?thesis by (simp add: atan2_def)
  next
    case False
    have "- (pi / 2) < arctan (y / x)" by (rule arctan_lbound)
    with pi_gt_zero have "0 \<le> arctan (y / x) + pi" by linarith
    with False y show ?thesis by (auto simp: atan2_def)
  qed
qed

lemma cos_latitude_nonneg: "\<bar>l\<bar> \<le> 90 \<Longrightarrow> 0 \<le> cos (l * pi / 180)"
proof -
  assume "\<bar>l\<bar> \<le> 90"
  then have "- 90 \<le> l" "l \<le> 90" by auto
  then have "- 90 * pi \<le> l * pi" "l * pi \<le> 90 * pi"
    using pi_gt_zero by (simp_all only: mult_le_cancel_right_pos)
  then have "- (pi / 2) \<le> l * pi / 180" "l * pi / 180 \<le> pi / 2" by simp_all
  then show ?thesis by (rule cos_ge_zero)
qed

lemma sin_sq_le_one: "sin x * sin x \<le> (1::real)"
proof -
  have "\<bar>sin x\<bar> \<le> \<bar>1::real\<bar>" by simp
  then have "(sin x)\<^sup>2 \<le> 1\<^sup>2" by (simp only: abs_le_square_iff)
  then show ?thesis by (simp add: power2_eq_square)
qed

lemma cos_sq_le_one: "cos x * cos x \<le> (1::real)"
proof -
  have "\<bar>cos x\<bar> \<le> \<bar>1::real\<bar>" by simp
  then have "(cos x)\<^sup>2 \<le> 1\<^sup>2" by (simp only: abs_le_square_iff)
  then show ?thesis by (simp add: power2_eq_square)
qed

lemma haversine_unit_interval:
  assumes "\<bar>latitude coord1\<bar> \<le> 90" "\<bar>latitude coord2\<bar> \<le> 90"
  shows "0 \<le> sin ((latitude coord2 - latitude coord1) * pi / 180 / 2) *
               sin ((latitude coord2 - latitude coord1) * pi / 180 / 2) +
             cos (latitude coord1 * pi / 180) * cos (latitude coord2 * pi / 180) *
               sin ((longitude coord2 - longitude coord1) * pi / 180 / 2) *
               sin ((longitude coord2 - longitude coord1) * pi / 180 / 2) \<and>
         sin ((latitude coord2 - latitude coord1) * pi / 180 / 2) *
               sin ((latitude coord2 - latitude coord1) * pi / 180 / 2) +
             cos (latitude coord1 * pi / 180) * cos (latitude coord2 * pi / 180) *
               sin ((longitude coord2 - longitude coord1) * pi / 180 / 2) *
               sin ((longitude coord2 - longitude coord1) * pi / 180 / 2) \<le> 1"
proof -
  define a where "a = sin ((latitude coord2 - latitude coord1) * pi / 180 / 2) *
               sin ((latitude coord2 - latitude coord1) * pi / 180 / 2) +
             cos (latitude coord1 * pi / 180) * cos (latitude coord2 * pi / 180) *
               sin ((longitude coord2 - longitude coord1) * pi / 180 / 2) *
               sin ((longitude coord2 - longitude coord1) * pi / 180 / 2)"
  let ?p1 = "latitude coord1 * pi / 180" and ?p2 = "latitude coord2 * pi / 180"
  let ?s = "sin ((longitude coord2 - longitude coord1) * pi / 180 / 2)"
  let ?d = "sin ((latitude coord2 - latitude coord1) * pi / 180 / 2)"
  let ?p = "(?p1 + ?p2) / 2" and ?q = "(?p2 - ?p1) / 2"
  have c1: "0 \<le> cos ?p1" and c2: "0 \<le> cos ?p2"
    using assms(1,2) by (simp_all add: cos_latitude_nonneg)
  have "(latitude coord2 - latitude coord1) * pi / 180 / 2 = ?q"
    by (simp add: left_diff_distrib diff_divide_distrib)
  then have dq: "?d = sin ?q" by (simp only:)
  have a_eq: "a = ?d * ?d + cos ?p1 * cos ?p2 * (?s * ?s)" by (simp add: a_def algebra_simps)
  have s2: "0 \<le> ?s * ?s" "?s * ?s \<le> 1"
    by (simp_all add: sin_sq_le_one)
  have d2: "0 \<le> ?d * ?d" by simp
  from c1 c2 have cc: "0 \<le> cos ?p1 * cos ?p2" by (rule mult_nonneg_nonneg)
  from cc s2(1) have "0 \<le> cos ?p1 * cos ?p2 * (?s * ?s)" by (rule mult_nonneg_nonneg)
  with d2 have nn: "0 \<le> a" unfolding a_eq by (rule add_nonneg_nonneg)
  have p12: "?p1 = ?p - ?q" "?p2 = ?p + ?q" by (simp_all add: field_simps)
  have prod: "cos ?p1 * cos ?p2 = cos ?p * cos ?p - sin ?q * sin ?q"
  proof -
    have "cos ?p1 * cos ?p2 = cos (?p - ?q) * cos (?p + ?q)" by (simp only: p12 [symmetric])
    also have "\<dots> = (cos ?p * cos ?q) * (cos ?p * cos ?q) - (sin ?p * sin ?q) * (sin ?p * sin ?q)"
      by (simp only: cos_diff cos_add) (simp add: algebra_simps)
    also have "\<dots> = cos ?p * cos ?p * (cos ?q * cos ?q) - sin ?p * sin ?p * (sin ?q * sin ?q)"
      by (simp add: algebra_simps)
    also have "cos ?q * cos ?q = 1 - sin ?q * sin ?q"
      using sin_cos_squared_add [of ?q] by (simp add: power2_eq_square)
    also have "sin ?p * sin ?p = 1 - cos ?p * cos ?p"
      using sin_cos_squared_add [of ?p] by (simp add: power2_eq_square)
    finally show ?thesis by (simp add: algebra_simps)
  qed
  from s2(2) cc have "cos ?p1 * cos ?p2 * (?s * ?s) \<le> cos ?p1 * cos ?p2 * 1"
    by (rule mult_left_mono)
  then have "a \<le> ?d * ?d + cos ?p1 * cos ?p2" unfolding a_eq by simp
  also have "\<dots> = cos ?p * cos ?p" unfolding dq prod by simp
  also have "\<dots> \<le> 1" by (rule cos_sq_le_one)
  finally have "a \<le> 1" .
  with nn show ?thesis unfolding a_def by simp
qed

lemma calculateDistance_nonneg:
  assumes "\<bar>latitude coord1\<bar> \<le> 90" "\<bar>latitude coord2\<bar> \<le> 90"
  shows "0 \<le> calculateDistance coord1 coord2"
proof -
  from haversine_unit_interval [OF assms, of] have
    "0 \<le> sin ((latitude coord2 - latitude coord1) * pi / 180 / 2) *
                  sin ((latitude coord2 - latitude coord1) * pi / 180 / 2) +
              cos (latitude coord1 * pi / 180) * cos (latitude coord2 * pi / 180) *
                sin ((longitude coord2 - longitude coord1) * pi / 180 / 2) *
                sin ((longitude coord2 - longitude coord1) * pi / 180 / 2)"
    by simp
  then show ?thesis
    unfolding calculateDistance_def Let_def
    by (intro mult_nonneg_nonneg atan2_nonneg) simp_all
qed

section \<open>Properties of the distance in double precision\<close>

text \<open>
  The rounding is the one intended: \<open>exponent\<close> is the binary exponent, \<open>fl x\<close>
  lies within half a unit in the last place of \<open>x\<close>, and a result below
  \<open>2^1000\<close> in magnitude does not overflow.
\<close>

lemmas fl_eval = fl_def exponent_def bits.simps pow2_def rne_def Let_def

lemma bits_bounds: "0 < n \<Longrightarrow> 2 ^ (bits n - 1) \<le> n \<and> n < 2 ^ bits n"
proof (induction n rule: less_induct)
  case (less n)
  show ?case
  proof (cases "n = 1")
    case True
    then show ?thesis by (simp add: bits.simps)
  next
    case False
    with less.prems have h: "0 < n div 2" "n div 2 < n" by auto
    from less.IH [OF h(2) h(1)] have ih: "2 ^ (bits (n div 2) - 1) \<le> n div 2" "n div 2 < 2 ^ bits (n div 2)"
      by auto
    from h(1) have pos: "0 < bits (n div 2)" by (subst bits.simps) simp
    have b: "bits n = Suc (bits (n div 2))" using less.prems by (subst bits.simps) simp
    from pos have "(2::nat) ^ (bits n - 1) = 2 * 2 ^ (bits (n div 2) - 1)"
      by (cases "bits (n div 2)") (simp_all add: b)
    with ih(1) have "2 ^ (bits n - 1) \<le> n" by linarith
    moreover from ih(2) have "n < 2 ^ bits n" by (simp add: b)
    ultimately show ?thesis by simp
  qed
qed


lemma pow2_pos: "0 < pow2 k"
  by (simp add: pow2_def)

lemma exponent_bounds:
  assumes "0 < x"
  shows "pow2 (exponent x) \<le> x \<and> x < pow2 (exponent x + 1)"
proof (cases "1 \<le> x")
  case True
  define n where "n = nat \<lfloor>x\<rfloor>"
  from True have n: "0 < n" "real n \<le> x" "x < real n + 1"
    by (simp_all add: n_def)
  from bits_bounds [OF n(1)] have b: "2 ^ (bits n - 1) \<le> n" "n < 2 ^ bits n" by auto
  from n(1) have pos: "0 < bits n" by (subst bits.simps) simp
  from True have e: "exponent x = int (bits n) - 1" by (simp add: exponent_def n_def)
  from pos have p1: "pow2 (exponent x) = 2 ^ (bits n - 1)"
    by (simp add: e pow2_def nat_diff_distrib')
  have p2: "pow2 (exponent x + 1) = 2 ^ bits n" by (simp add: e pow2_def)
  from b(1) have "real (2 ^ (bits n - 1)) \<le> real n" by (rule of_nat_mono)
  then have lo: "(2::real) ^ (bits n - 1) \<le> real n" by simp
  from b(2) have "Suc n \<le> 2 ^ bits n" by simp
  then have "real (Suc n) \<le> real (2 ^ bits n)" by (rule of_nat_mono)
  then have hi: "real n + 1 \<le> 2 ^ bits n" by simp
  from lo hi n show ?thesis unfolding p1 p2 by linarith
next
  case False
  define c where "c = \<lceil>1 / x\<rceil>"
  define k where "k = bits (nat (c - 1))"
  from False assms have inv: "1 < 1 / x" by simp
  then have c2: "2 \<le> c" unfolding c_def by linarith
  have cx: "1 / x \<le> of_int c" "of_int c - 1 < 1 / x" unfolding c_def by linarith+
  from c2 have n: "0 < nat (c - 1)" by simp
  from bits_bounds [OF n] have b: "2 ^ (k - 1) \<le> nat (c - 1)" "nat (c - 1) < 2 ^ k"
    by (auto simp: k_def)
  from n have pos: "0 < k" unfolding k_def by (subst bits.simps) simp
  from False have e: "exponent x = - int k" by (simp add: exponent_def c_def k_def)
  from pos have p1: "pow2 (exponent x) = 1 / 2 ^ k" by (simp add: e pow2_def)
  from pos have p2: "pow2 (exponent x + 1) = 1 / 2 ^ (k - 1)"
    by (cases k) (simp_all add: e pow2_def)
  from b(2) have "int (nat (c - 1)) < int (2 ^ k)" by (simp only: of_nat_less_iff)
  with c2 have "c \<le> 2 ^ k" by simp
  then have "real_of_int c \<le> real_of_int (2 ^ k)" by (simp only: of_int_le_iff)
  then have "real_of_int c \<le> 2 ^ k" by simp
  with cx(1) have "1 / x \<le> 2 ^ k" by linarith
  with assms have lo: "1 / 2 ^ k \<le> x" by (simp add: field_simps)
  from b(1) have "int (2 ^ (k - 1)) \<le> int (nat (c - 1))" by (simp only: of_nat_le_iff)
  with c2 have "2 ^ (k - 1) \<le> c - 1" by simp
  then have "real_of_int (2 ^ (k - 1)) \<le> real_of_int (c - 1)" by (simp only: of_int_le_iff)
  then have "2 ^ (k - 1) \<le> real_of_int c - 1" by simp
  with cx(2) have "2 ^ (k - 1) < 1 / x" by linarith
  with assms have hi: "x < 1 / 2 ^ (k - 1)" by (simp add: field_simps)
  from lo hi show ?thesis unfolding p1 p2 by simp
qed

lemma rne_nearest: "\<bar>of_int (rne y) - y\<bar> \<le> 1 / 2"
  unfolding rne_def Let_def by (auto simp: abs_if) linarith+

lemma fl_nearest:
  "\<bar>fl x - x\<bar> \<le> pow2 (max (exponent \<bar>x\<bar>) (- 1022) - 52) / 2"
proof (cases "x = 0")
  case True
  then show ?thesis using pow2_pos [of "max (exponent \<bar>x\<bar>) (- 1022) - 52"] by (simp add: fl_def)
next
  case False
  let ?u = "pow2 (max (exponent \<bar>x\<bar>) (- 1022) - 52)"
  have u: "0 < ?u" by (rule pow2_pos)
  have "fl x - x = (of_int (rne (x / ?u)) - x / ?u) * ?u"
    using False u by (simp add: fl_def Let_def field_simps)
  then have "\<bar>fl x - x\<bar> = \<bar>of_int (rne (x / ?u)) - x / ?u\<bar> * ?u"
    using u by (simp add: abs_mult)
  also have "\<dots> \<le> (1 / 2) * ?u"
    using rne_nearest [of "x / ?u"] u by (intro mult_right_mono) simp_all
  finally show ?thesis by simp
qed


lemma pow2_powi: "pow2 n = 2 powi n"
  by (simp add: pow2_def power_int_def field_simps)

lemma pow2_mono: "a \<le> b \<Longrightarrow> pow2 a \<le> pow2 b"
  unfolding pow2_powi by (rule power_int_increasing) simp_all

lemma fl_bound: "\<bar>fl x\<bar> \<le> 2 * \<bar>x\<bar> + 1"
proof (cases "x = 0")
  case True
  then show ?thesis by (simp add: fl_def)
next
  case False
  let ?e = "exponent \<bar>x\<bar>"
  let ?u = "pow2 (max ?e (- 1022) - 52)"
  from False exponent_bounds [of "\<bar>x\<bar>"] have e: "pow2 ?e \<le> \<bar>x\<bar>" by simp
  have "?u \<le> pow2 (max ?e (- 1022))" by (rule pow2_mono) simp
  also have "\<dots> \<le> max (pow2 ?e) (pow2 (- 1022))"
    by (cases "?e \<le> - 1022") (simp_all add: max_def)
  also have "\<dots> \<le> max \<bar>x\<bar> 1"
    using e by (simp add: pow2_def max_def)
  finally have u: "?u \<le> \<bar>x\<bar> + 1" by simp
  from fl_nearest [of x] have "\<bar>fl x\<bar> \<le> \<bar>x\<bar> + ?u / 2" by linarith
  with u pow2_pos [of "max ?e (- 1022) - 52"] show ?thesis by linarith
qed

lemma round64_finite: "\<bar>x\<bar> \<le> 2 ^ 1000 \<Longrightarrow> round64 (Fin x) = Fin (fl x)"
proof -
  assume "\<bar>x\<bar> \<le> 2 ^ 1000"
  with fl_bound [of x] have "\<bar>fl x\<bar> \<le> 2 * 2 ^ 1000 + 1" by linarith
  also have "\<dots> < (2::real) ^ 1024" by simp
  finally show ?thesis by (simp add: Let_def)
qed

lemma fl_0: "fl 0 = 0"
  by (simp add: fl_def)

lemma fl_1: "fl 1 = 1"
  by (simp add: fl_eval)

text \<open>
  Between a point and itself the distance is 0 in double precision too, for a latitude in
  range and an engine whose sine of 0 is 0, whose cosine does not exceed 1 in magnitude
  and whose \<open>Math.atan2(0, 1)\<close> is 0.
\<close>

lemma calculateDistance64_identical:
  assumes lat: "\<bar>latitude c\<bar> \<le> 90"
    and s0: "sinOf m 0 = 0"
    and cs: "\<bar>cosOf m (fl (fl (latitude c * Math_PI) / 180))\<bar> \<le> 1"
    and at: "atan2Of m (Fin 0) (Fin 1) = Fin 0"
  shows "calculateDistance64 m c c = Fin 0"
proof -
  let ?y = "fl (latitude c * Math_PI)"
  let ?k = "cosOf m (fl (?y / 180))"
  have pi4: "\<bar>Math_PI\<bar> \<le> 4" by (simp add: Math_PI_def)
  have "\<bar>latitude c * Math_PI\<bar> \<le> 90 * 4"
    unfolding abs_mult using lat pi4 by (intro mult_mono) simp_all
  then have p: "\<bar>latitude c * Math_PI\<bar> \<le> 360" by simp
  then have r1: "mul64 (Fin (latitude c)) (Fin Math_PI) = Fin ?y"
    by (simp add: mul64_def round64_finite del: round64.simps)
  from fl_bound [of "latitude c * Math_PI"] p have y: "\<bar>?y\<bar> \<le> 721" by linarith
  then have "\<bar>?y / 180\<bar> \<le> 2 ^ 1000" by simp
  then have r2: "div64 (Fin ?y) (Fin 180) = Fin (fl (?y / 180))"
    by (simp add: div64_def round64_finite del: round64.simps)
  have z: "sub64 (Fin v) (Fin v) = Fin 0" for v
    by (simp add: sub64_def fl_0)
  have d0: "div64 (mul64 (Fin 0) (Fin Math_PI)) (Fin 180) = Fin 0"
    by (simp add: div64_def mul64_def fl_0)
  have h0: "div64 (Fin 0) (Fin 2) = Fin 0" by (simp add: div64_def fl_0)
  have "\<bar>?k * ?k\<bar> \<le> 1 * 1" unfolding abs_mult using cs by (intro mult_mono) simp_all
  then have "\<bar>?k * ?k\<bar> \<le> 2 ^ 1000" by simp
  then have kk: "mul64 (Fin ?k) (Fin ?k) = Fin (fl (?k * ?k))"
    by (simp add: mul64_def round64_finite del: round64.simps)
  have m0: "mul64 (Fin v) (Fin 0) = Fin 0" for v by (simp add: mul64_def fl_0)
  have a: "haversine64 m c c = Fin 0"
    unfolding haversine64_def Let_def z d0 h0 r1 r2
    by (simp add: Math_sin_def Math_cos_def s0 kk m0 add64_def fl_0 del: round64.simps)
      (simp add: fl_0)
  show ?thesis
    unfolding calculateDistance64_def Let_def a
    by (simp add: sub64_def Math_sqrt_def fl_0 fl_1 Math_atan2_def at mul64_def)
qed

text \<open>
  The source takes the square root of \<open>1 - a\<close> as it is computed: when that is
  negative, the distance is NaN.
\<close>

lemma calculateDistance64_unclamped:
  "sub64 (Fin 1) (haversine64 m coord1 coord2) = Fin x \<Longrightarrow> x < 0 \<Longrightarrow>
   calculateDistance64 m coord1 coord2 = NaN"
  by (simp add: calculateDistance64_def Let_def Math_sqrt_def Math_atan2_def mul64_def)

text \<open>The operations between the two antipodal points, evaluated.\<close>

lemma doubles:
  "fl 0.13962634015954636 = 5030569068109113 / 36028797018963968"
  "fl 1.5707963267948966 = 884279719003555 / 562949953421312"
  "fl 0.13917310096006544 = 5014239404989977 / 36028797018963968"
  "fl 0.9902680687415704 = 4459770905381437 / 4503599627370496"
  by (simp_all add: fl_eval)

lemma radians:
  "div64 (mul64 (Fin (- 8)) (Fin Math_PI)) (Fin 180) = Fin (- (5030569068109113 / 36028797018963968))"
  "div64 (mul64 (Fin 8) (Fin Math_PI)) (Fin 180) = Fin (5030569068109113 / 36028797018963968)"
  "div64 (mul64 (sub64 (Fin 8) (Fin (- 8))) (Fin Math_PI)) (Fin 180) =
     Fin (5030569068109113 / 18014398509481984)"
  "div64 (mul64 (sub64 (Fin 0) (Fin (- 180))) (Fin Math_PI)) (Fin 180) =
     Fin (884279719003555 / 281474976710656)"
  by (simp_all add: div64_def mul64_def sub64_def Math_PI_def fl_eval)

lemma halves:
  "div64 (Fin (5030569068109113 / 18014398509481984)) (Fin 2) = Fin (5030569068109113 / 36028797018963968)"
  "div64 (Fin (884279719003555 / 281474976710656)) (Fin 2) = Fin (884279719003555 / 562949953421312)"
  by (simp_all add: div64_def fl_eval)

lemma products:
  "mul64 (Fin (5014239404989977 / 36028797018963968)) (Fin (5014239404989977 / 36028797018963968)) =
     Fin (1395694493897217 / 72057594037927936)"
  "mul64 (Fin (4459770905381437 / 4503599627370496)) (Fin (4459770905381437 / 4503599627370496)) =
     Fin (8832737443003841 / 9007199254740992)"
  "mul64 (Fin (8832737443003841 / 9007199254740992)) (Fin 1) = Fin (8832737443003841 / 9007199254740992)"
  "add64 (Fin (1395694493897217 / 72057594037927936)) (Fin (8832737443003841 / 9007199254740992)) =
     Fin (4503599627370497 / 4503599627370496)"
  "sub64 (Fin 1) (Fin (4503599627370497 / 4503599627370496)) = Fin (- (1 / 4503599627370496))"
  by (simp_all add: mul64_def add64_def sub64_def fl_eval)

text \<open>
  Claim C5 fails on the code.  \<open>calculateDistance\<close> takes \<open>Math.sqrt(1 - a)\<close> with no
  clamp.  The coordinates \<open>(-8, -180)\<close> and \<open>(8, 0)\<close> are valid and antipodal.  On an
  engine whose sine and cosine return, at the arguments that occur, the doubles of the
  table above, the sum \<open>a\<close> is rounded to \<open>1 + 2^(-52)\<close>: \<open>1 - a\<close> is negative,
  its square root is NaN, and the distance returned is NaN, not a number of meters.
\<close>
theorem antipodal_distance_NaN:
  assumes "sinOf m (fl 0.13962634015954636) = fl 0.13917310096006544"
    and "cosOf m (- fl 0.13962634015954636) = fl 0.9902680687415704"
    and "cosOf m (fl 0.13962634015954636) = fl 0.9902680687415704"
    and "sinOf m (fl 1.5707963267948966) = 1"
  shows "isValidCoordinate (getProp antipodeA ''coordinates'') \<and>
         isValidCoordinate (getProp antipodeB ''coordinates'') \<and>
         haversine64 m (coordsOf antipodeA) (coordsOf antipodeB) = Fin (1 + 1 / 2 ^ 52) \<and>
         calculateDistance64 m (coordsOf antipodeA) (coordsOf antipodeB) = NaN"
proof -
  let ?x = "5030569068109113 / 36028797018963968 :: real"
  let ?h = "884279719003555 / 562949953421312 :: real"
  from assms have lib:
    "sinOf m ?x = 5014239404989977 / 36028797018963968"
    "cosOf m (- ?x) = 4459770905381437 / 4503599627370496"
    "cosOf m ?x = 4459770905381437 / 4503599627370496"
    "sinOf m ?h = 1"
    by (simp_all only: doubles)
  have a: "haversine64 m \<lparr>latitude = - 8, longitude = - 180\<rparr> \<lparr>latitude = 8, longitude = 0\<rparr> =
      Fin (4503599627370497 / 4503599627370496)"
    unfolding haversine64_def Let_def geo.simps radians halves
    by (simp only: Math_sin_def Math_cos_def jsnum.case lib products)
  have c: "calculateDistance64 m \<lparr>latitude = - 8, longitude = - 180\<rparr> \<lparr>latitude = 8, longitude = 0\<rparr> = NaN"
    unfolding calculateDistance64_def Let_def a products
    by (simp add: Math_sqrt_def Math_atan2_def mul64_def)
  have v: "isValidCoordinate (getProp antipodeA ''coordinates'')"
    "isValidCoordinate (getProp antipodeB ''coordinates'')"
    by (simp_all add: isValidCoordinate_def js_ge_def antipodeA_def antipodeB_def)
  have g: "coordsOf antipodeA = \<lparr>latitude = - 8, longitude = - 180\<rparr>"
    "coordsOf antipodeB = \<lparr>latitude = 8, longitude = 0\<rparr>"
    by (simp_all add: coordsOf_def antipodeA_def antipodeB_def)
  from a c v show ?thesis unfolding g by simp
qed

theorem antipodal_distance_NaN_witness:
  "sinOf libmValues (fl 0.13962634015954636) = fl 0.13917310096006544 \<and>
   cosOf libmValues (- fl 0.13962634015954636) = fl 0.9902680687415704 \<and>
   cosOf libmValues (fl 0.13962634015954636) = fl 0.9902680687415704 \<and>
   sinOf libmValues (fl 1.5707963267948966) = 1 \<and>
   isValidCoordinate (getProp antipodeA ''coordinates'') \<and>
   isValidCoordinate (getProp antipodeB ''coordinates'') \<and>
   haversine64 libmValues (coordsOf antipodeA) (coordsOf antipodeB) = Fin (1 + 1 / 2 ^ 52) \<and>
   calculateDistance64 libmValues (coordsOf antipodeA) (coordsOf antipodeB) = NaN"
proof -
  have h: "sinOf libmValues (fl 0.13962634015954636) = fl 0.13917310096006544"
    "cosOf libmValues (- fl 0.13962634015954636) = fl 0.9902680687415704"
    "cosOf libmValues (fl 0.13962634015954636) = fl 0.9902680687415704"
    "sinOf libmValues (fl 1.5707963267948966) = 1"
    by (simp_all add: libmValues_def fl_eval)
  from antipodal_distance_NaN [OF h] h show ?thesis by blast
qed

section \<open>Properties of the union-find structure\<close>

lemma root_of_is_root: "root_of p x r \<Longrightarrow> r < length p \<and> p ! r = r"
  by (induction rule: root_of.induct) auto

lemma root_of_det: "root_of p x r \<Longrightarrow> root_of p x s \<Longrightarrow> r = s"
proof (induction arbitrary: s rule: root_of.induct)
  case (root x)
  from root.prems root.hyps show ?case by (cases rule: root_of.cases) auto
next
  case (step x r)
  from step.prems step.hyps show ?case by (cases rule: root_of.cases) (auto dest: step.IH)
qed

lemma root_of_root_eq: "root_of p x r \<Longrightarrow> p ! x = x \<Longrightarrow> r = x"
  by (erule root_of.cases) auto

lemma root_of_rank:
  assumes "uf_inv u" "root_of (parent u) x r"
  shows "r = x \<or> rank u ! x < rank u ! r"
  using assms(2,1)
proof (induction rule: root_of.induct)
  case (root x) then show ?case by simp
next
  case (step x r)
  then have "rank u ! x < rank u ! (parent u ! x)" by (simp add: uf_inv_def)
  with step show ?case by auto
qed

lemma compress_root_of:
  assumes "root_of p x r"
  shows "root_of (p[x := r]) z s = root_of p z s"
proof
  assume "root_of (p[x := r]) z s"
  then show "root_of p z s"
  proof (induction rule: root_of.induct)
    case (root z)
    show ?case
    proof (cases "z = x")
      case True
      with root have "r = x" by simp
      with assms True show ?thesis by simp
    next
      case False
      with root show ?thesis by (auto intro: root_of.root)
    qed
  next
    case (step z s)
    show ?case
    proof (cases "z = x")
      case True
      with step.hyps have px: "(p[x := r]) ! x = r" and rx: "r \<noteq> x" by auto
      from root_of_is_root [OF assms] have "root_of p r r" by (auto intro: root_of.root)
      moreover from step.IH True px have "root_of p r s" by simp
      ultimately have "s = r" by (rule root_of_det [symmetric])
      with assms True show ?thesis by simp
    next
      case False
      with step show ?thesis by (auto intro: root_of.step)
    qed
  qed
next
  assume "root_of p z s"
  then show "root_of (p[x := r]) z s"
  proof (induction rule: root_of.induct)
    case (root z)
    show ?case
    proof (cases "z = x")
      case True
      with root assms have "r = x" by (auto dest: root_of_root_eq)
      with root True show ?thesis by (auto intro: root_of.root)
    next
      case False
      with root show ?thesis by (auto intro: root_of.root)
    qed
  next
    case (step z s)
    show ?case
    proof (cases "z = x")
      case True
      from step.hyps have "root_of p z s" by (auto intro: root_of.step)
      with assms True have sr: "s = r" by (auto dest: root_of_det)
      from root_of_is_root [OF assms] have r: "r < length p" "p ! r = r" by auto
      with step.hyps True have rx: "r \<noteq> x" by auto
      with r have "root_of (p[x := r]) r r" by (auto intro: root_of.root)
      with step.hyps True rx sr show ?thesis by (auto intro: root_of.step)
    next
      case False
      with step show ?thesis by (auto intro: root_of.step)
    qed
  qed
qed

lemma find_ok:
  assumes "uf_inv u" "x < length (parent u)"
  shows "\<exists>u' r. UnionFind_find u x = Some (u', r) \<and> root_of (parent u) x r \<and> rank u' = rank u \<and>
           length (parent u') = length (parent u) \<and> uf_inv u' \<and>
           (\<forall>z s. root_of (parent u') z s = root_of (parent u) z s)"
  using assms(2)
proof (induction "Max (set (rank u)) - rank u ! x" arbitrary: x rule: less_induct)
  case less
  show ?case
  proof (cases "parent u ! x = x")
    case True
    with less.prems have "UnionFind_find u x = Some (u, x)" by (subst UnionFind_find.simps) simp
    moreover from True less.prems have "root_of (parent u) x x" by (auto intro: root_of.root)
    ultimately show ?thesis using assms(1) by auto
  next
    case False
    let ?y = "parent u ! x"
    from assms(1) less.prems False have y: "?y < length (parent u)" and rk: "rank u ! x < rank u ! ?y"
      by (auto simp: uf_inv_def)
    from assms(1) y have "rank u ! ?y \<le> Max (set (rank u))"
      by (simp add: uf_inv_def)
    with rk have "Max (set (rank u)) - rank u ! ?y < Max (set (rank u)) - rank u ! x" by arith
    from less.hyps [OF this y] obtain u1 r where
      f: "UnionFind_find u ?y = Some (u1, r)" and r: "root_of (parent u) ?y r" and
      rk1: "rank u1 = rank u" and len1: "length (parent u1) = length (parent u)" and
      inv1: "uf_inv u1" and eq1: "\<And>z s. root_of (parent u1) z s = root_of (parent u) z s"
      by blast
    define u2 where "u2 = u1\<lparr>parent := (parent u1)[x := r]\<rparr>"
    from less.prems len1 have px: "parent u2 ! x = r" by (simp add: u2_def)
    have fx: "UnionFind_find u x = Some (u2, r)"
      using less.prems False f px by (subst UnionFind_find.simps) (simp add: u2_def Let_def)
    from r less.prems False have rx: "root_of (parent u) x r" by (auto intro: root_of.step)
    then have rx1: "root_of (parent u1) x r" by (simp add: eq1)
    have eq2: "\<And>z s. root_of (parent u2) z s = root_of (parent u) z s"
      using compress_root_of [OF rx1] by (simp add: u2_def eq1)
    from root_of_is_root [OF rx] have rr: "r < length (parent u)" "parent u ! r = r" by auto
    with False have "r \<noteq> x" by auto
    with root_of_rank [OF assms(1) rx] have rkx: "rank u ! x < rank u ! r" by simp
    have inv2: "uf_inv u2"
      unfolding uf_inv_def
    proof (intro conjI allI impI)
      show "length (rank u2) = length (parent u2)"
        using inv1 by (simp add: u2_def uf_inv_def)
    next
      fix i assume i: "i < length (parent u2)"
      then have i1: "i < length (parent u1)" by (simp add: u2_def)
      show "parent u2 ! i < length (parent u2)"
        using i1 inv1 rr len1 by (cases "i = x") (auto simp: u2_def uf_inv_def)
      assume ne: "parent u2 ! i \<noteq> i"
      show "rank u2 ! i < rank u2 ! (parent u2 ! i)"
      proof (cases "i = x")
        case True
        with px rkx rk1 show ?thesis by (simp add: u2_def)
      next
        case False
        with i1 ne inv1 show ?thesis by (auto simp: u2_def uf_inv_def)
      qed
    qed
    show ?thesis
      using fx rx rk1 len1 inv2 eq2 by (auto simp: u2_def)
  qed
qed

lemma link_root_of:
  assumes "a < length p" "p ! a = a" "b < length p" "p ! b = b" "a \<noteq> b"
  shows "root_of (p[a := b]) z s = (\<exists>t. root_of p z t \<and> s = (if t = a then b else t))"
proof
  assume "root_of (p[a := b]) z s"
  then show "\<exists>t. root_of p z t \<and> s = (if t = a then b else t)"
  proof (induction rule: root_of.induct)
    case (root z)
    with assms have "z \<noteq> a" by auto
    with root have "root_of p z z" by (auto intro: root_of.root)
    with \<open>z \<noteq> a\<close> show ?case by auto
  next
    case (step z s)
    then obtain t where t: "root_of p ((p[a := b]) ! z) t" "s = (if t = a then b else t)" by blast
    show ?case
    proof (cases "z = a")
      case True
      with assms t have "root_of p b t" by simp
      with assms have "t = b" by (auto dest: root_of_root_eq)
      with t assms have "s = b" by simp
      moreover from assms have "root_of p a a" by (auto intro: root_of.root)
      ultimately show ?thesis using True by auto
    next
      case False
      with step.hyps t have "root_of p z t" by (auto intro: root_of.step)
      with t show ?thesis by blast
    qed
  qed
next
  assume "\<exists>t. root_of p z t \<and> s = (if t = a then b else t)"
  then obtain t where t: "root_of p z t" and s: "s = (if t = a then b else t)" by blast
  from t have "root_of (p[a := b]) z (if t = a then b else t)"
  proof (induction rule: root_of.induct)
    case (root z)
    show ?case
    proof (cases "z = a")
      case True
      from assms have "root_of (p[a := b]) b b" by (auto intro: root_of.root)
      with assms True show ?thesis by (auto intro: root_of.step)
    next
      case False
      with root show ?thesis by (auto intro: root_of.root)
    qed
  next
    case (step z t)
    with assms have "z \<noteq> a" by auto
    with step show ?case by (auto intro: root_of.step)
  qed
  with s show "root_of (p[a := b]) z s" by simp
qed

lemma link_inv:
  assumes inv: "uf_inv u" and a: "a < length (parent u)" "parent u ! a = a"
    and b: "b < length (parent u)" "parent u ! b = b" and ab: "a \<noteq> b"
    and rk: "rank' ! a < rank' ! b" and len: "length rank' = length (rank u)"
    and ge: "\<And>i. i < length (rank u) \<Longrightarrow> rank u ! i \<le> rank' ! i"
    and same: "\<And>i. i < length (rank u) \<Longrightarrow> parent u ! i \<noteq> i \<Longrightarrow> rank' ! i = rank u ! i"
  shows "uf_inv (u\<lparr>parent := (parent u)[a := b], rank := rank'\<rparr>)"
  unfolding uf_inv_def
proof (intro conjI allI impI)
  let ?u = "u\<lparr>parent := (parent u)[a := b], rank := rank'\<rparr>"
  show "length (rank ?u) = length (parent ?u)" using inv len by (simp add: uf_inv_def)
  fix i assume "i < length (parent ?u)"
  then have i: "i < length (parent u)" by simp
  show "parent ?u ! i < length (parent ?u)"
    using i inv b by (cases "i = a") (auto simp: uf_inv_def)
  assume ne: "parent ?u ! i \<noteq> i"
  show "rank ?u ! i < rank ?u ! (parent ?u ! i)"
  proof (cases "i = a")
    case True
    with a rk i show ?thesis by simp
  next
    case False
    with i ne have pi: "parent u ! i \<noteq> i" "parent ?u ! i = parent u ! i" by auto
    with inv i have lt: "rank u ! i < rank u ! (parent u ! i)" "parent u ! i < length (parent u)"
      by (auto simp: uf_inv_def)
    from same [of i] i pi inv have "rank' ! i = rank u ! i" by (simp add: uf_inv_def)
    moreover from ge [of "parent u ! i"] lt inv have "rank u ! (parent u ! i) \<le> rank' ! (parent u ! i)"
      by (simp add: uf_inv_def)
    ultimately show ?thesis using lt pi by simp
  qed
qed

lemma merge_classes:
  assumes "a \<noteq> b"
  shows "(\<exists>s. (\<exists>t. R c t \<and> s = (if t = a then b else t)) \<and> (\<exists>t. R d t \<and> s = (if t = a then b else t))) =
         ((\<exists>t. R c t \<and> R d t) \<or> (R c a \<and> R d b) \<or> (R c b \<and> R d a))"
proof
  assume "\<exists>s. (\<exists>t. R c t \<and> s = (if t = a then b else t)) \<and> (\<exists>t. R d t \<and> s = (if t = a then b else t))"
  then obtain t1 t2 where t: "R c t1" "R d t2" "(if t1 = a then b else t1) = (if t2 = a then b else t2)"
    by blast
  show "(\<exists>t. R c t \<and> R d t) \<or> (R c a \<and> R d b) \<or> (R c b \<and> R d a)"
  proof (cases "t1 = t2")
    case True
    with t show ?thesis by blast
  next
    case False
    with t(3) have "(t1 = a \<and> t2 = b) \<or> (t1 = b \<and> t2 = a)" by (simp split: if_splits)
    with t show ?thesis by blast
  qed
next
  assume "(\<exists>t. R c t \<and> R d t) \<or> (R c a \<and> R d b) \<or> (R c b \<and> R d a)"
  then consider t where "R c t" "R d t" | "R c a" "R d b" | "R c b" "R d a" by blast
  then show "\<exists>s. (\<exists>t. R c t \<and> s = (if t = a then b else t)) \<and> (\<exists>t. R d t \<and> s = (if t = a then b else t))"
  proof cases
    case 1
    then show ?thesis by blast
  next
    case 2
    have "b = (if a = a then b else a)" "b = (if b = a then b else b)" by simp_all
    with 2 show ?thesis by blast
  next
    case 3
    have "b = (if a = a then b else a)" "b = (if b = a then b else b)" by simp_all
    with 3 show ?thesis by blast
  qed
qed

lemma union_ok:
  assumes inv: "uf_inv u" and x: "x < length (parent u)" and y: "y < length (parent u)"
  shows "\<exists>u'. UnionFind_union u x y = Some u' \<and> uf_inv u' \<and> length (parent u') = length (parent u) \<and>
           (\<forall>c d. same_set u' c d =
              (same_set u c d \<or> (same_set u c x \<and> same_set u y d) \<or>
               (same_set u c y \<and> same_set u x d)))"
proof -
  from find_ok [OF inv x] obtain u1 rx where
    f1: "UnionFind_find u x = Some (u1, rx)" and rx: "root_of (parent u) x rx" and
    len1: "length (parent u1) = length (parent u)" and inv1: "uf_inv u1" and
    eq1: "\<And>z s. root_of (parent u1) z s = root_of (parent u) z s"
    by blast
  from y len1 have y1: "y < length (parent u1)" by simp
  from find_ok [OF inv1 y1] obtain u2 ry where
    f2: "UnionFind_find u1 y = Some (u2, ry)" and ry1: "root_of (parent u1) y ry" and
    len2: "length (parent u2) = length (parent u1)" and inv2: "uf_inv u2" and
    eq2': "\<And>z s. root_of (parent u2) z s = root_of (parent u1) z s"
    by blast
  have eq2: "\<And>z s. root_of (parent u2) z s = root_of (parent u) z s"
    by (simp add: eq1 eq2')
  from ry1 have ry: "root_of (parent u) y ry" by (simp add: eq1)
  from root_of_is_root [OF rx] root_of_is_root [OF ry] len1 len2
  have rts: "rx < length (parent u2)" "ry < length (parent u2)" by auto
  from rx ry have "root_of (parent u2) x rx" "root_of (parent u2) y ry" by (simp_all add: eq2)
  then have fp: "parent u2 ! rx = rx" "parent u2 ! ry = ry"
    by (auto dest: root_of_is_root)
  have ss: "\<And>c d. same_set u c d = (\<exists>t. root_of (parent u) c t \<and> root_of (parent u) d t)"
    by (simp add: same_set_def)
  have sx: "\<And>c. same_set u c x = root_of (parent u) c rx" "\<And>c. same_set u x c = root_of (parent u) c rx"
    using rx by (auto simp: same_set_def dest: root_of_det)
  have sy: "\<And>c. same_set u c y = root_of (parent u) c ry" "\<And>c. same_set u y c = root_of (parent u) c ry"
    using ry by (auto simp: same_set_def dest: root_of_det)
  show ?thesis
  proof (cases "rx = ry")
    case True
    with f1 f2 have un: "UnionFind_union u x y = Some u2" by (simp add: UnionFind_union_def)
    have e: "\<And>c d. same_set u2 c d = same_set u c d" by (simp add: same_set_def eq2)
    have a: "\<And>c d. (same_set u c x \<and> same_set u y d) \<Longrightarrow> same_set u c d"
      using True unfolding sx sy by (auto simp: ss)
    have b: "\<And>c d. (same_set u c y \<and> same_set u x d) \<Longrightarrow> same_set u c d"
      using True unfolding sx sy by (auto simp: ss)
    have "\<forall>c d. same_set u2 c d =
        (same_set u c d \<or> (same_set u c x \<and> same_set u y d) \<or> (same_set u c y \<and> same_set u x d))"
      unfolding e using a b by blast
    with un inv2 len1 len2 show ?thesis by (intro exI [of _ u2]) simp
  next
    case False
    have linkA: "\<And>c d. (\<exists>s. root_of ((parent u2)[rx := ry]) c s \<and> root_of ((parent u2)[rx := ry]) d s) =
        (same_set u c d \<or> (same_set u c x \<and> same_set u y d) \<or> (same_set u c y \<and> same_set u x d))"
      unfolding sx sy unfolding link_root_of [OF rts(1) fp(1) rts(2) fp(2) False] eq2 ss
      by (rule merge_classes [OF False])
    have linkB: "\<And>c d. (\<exists>s. root_of ((parent u2)[ry := rx]) c s \<and> root_of ((parent u2)[ry := rx]) d s) =
        (same_set u c d \<or> (same_set u c x \<and> same_set u y d) \<or> (same_set u c y \<and> same_set u x d))"
      unfolding sx sy unfolding link_root_of [OF rts(2) fp(2) rts(1) fp(1) False [symmetric]] eq2 ss
      unfolding merge_classes [OF False [symmetric]] by blast
    from inv2 have lr: "length (rank u2) = length (parent u2)" by (simp add: uf_inv_def)
    consider (lt) "rank u2 ! rx < rank u2 ! ry" | (gt) "rank u2 ! rx > rank u2 ! ry"
      | (eq) "rank u2 ! rx = rank u2 ! ry" by arith
    then show ?thesis
    proof cases
      case lt
      let ?u = "u2\<lparr>parent := (parent u2)[rx := ry]\<rparr>"
      from f1 f2 False lt have un: "UnionFind_union u x y = Some ?u" by (simp add: UnionFind_union_def)
      have iv: "uf_inv ?u"
        using link_inv [OF inv2 rts(1) fp(1) rts(2) fp(2) False, of "rank u2"] lt by simp
      have "\<forall>c d. same_set ?u c d =
        (same_set u c d \<or> (same_set u c x \<and> same_set u y d) \<or> (same_set u c y \<and> same_set u x d))"
        unfolding same_set_def [of ?u] using linkA by simp
      with un iv len1 len2 show ?thesis by (intro exI [of _ ?u]) simp
    next
      case gt
      let ?u = "u2\<lparr>parent := (parent u2)[ry := rx]\<rparr>"
      from f1 f2 False gt have un: "UnionFind_union u x y = Some ?u" by (simp add: UnionFind_union_def)
      have iv: "uf_inv ?u"
        using link_inv [OF inv2 rts(2) fp(2) rts(1) fp(1) False [symmetric], of "rank u2"] gt by simp
      have "\<forall>c d. same_set ?u c d =
        (same_set u c d \<or> (same_set u c x \<and> same_set u y d) \<or> (same_set u c y \<and> same_set u x d))"
        unfolding same_set_def [of ?u] using linkB by simp
      with un iv len1 len2 show ?thesis by (intro exI [of _ ?u]) simp
    next
      case eq
      let ?rk = "(rank u2)[rx := rank u2 ! rx + 1]"
      let ?u = "u2\<lparr>parent := (parent u2)[ry := rx], rank := ?rk\<rparr>"
      from f1 f2 False eq have un: "UnionFind_union u x y = Some ?u" by (simp add: UnionFind_union_def)
      have iv: "uf_inv ?u"
      proof (rule link_inv [OF inv2 rts(2) fp(2) rts(1) fp(1) False [symmetric]])
        show "?rk ! ry < ?rk ! rx" using False eq rts lr by simp
        show "length ?rk = length (rank u2)" by simp
        show "\<And>i. i < length (rank u2) \<Longrightarrow> rank u2 ! i \<le> ?rk ! i"
          using rts lr by (auto simp: nth_list_update)
        show "\<And>i. i < length (rank u2) \<Longrightarrow> parent u2 ! i \<noteq> i \<Longrightarrow> ?rk ! i = rank u2 ! i"
          using fp rts lr by (auto simp: nth_list_update)
      qed
      have "\<forall>c d. same_set ?u c d =
        (same_set u c d \<or> (same_set u c x \<and> same_set u y d) \<or> (same_set u c y \<and> same_set u x d))"
        unfolding same_set_def [of ?u] using linkB by simp
      with un iv len1 len2 show ?thesis by (intro exI [of _ ?u]) simp
    qed
  qed
qed

lemma UnionFind_new_inv: "uf_inv (UnionFind_new n)" "length (parent (UnionFind_new n)) = n"
  by (simp_all add: uf_inv_def UnionFind_new_def)

lemma uf_run_inv:
  assumes "list_all (op_ok n) ops" "uf_inv u" "length (parent u) = n"
  shows "\<exists>u'. uf_run u ops = Some u' \<and> uf_inv u' \<and> length (parent u') = n"
  using assms
proof (induction ops arbitrary: u)
  case Nil
  then show ?case by simp
next
  case (Cons op ops)
  show ?case
  proof (cases op)
    case (OpFind x)
    with Cons.prems have "x < length (parent u)" by simp
    from find_ok [OF Cons.prems(2) this] obtain u1 r where
      u1: "UnionFind_find u x = Some (u1, r)" "uf_inv u1" "length (parent u1) = length (parent u)" by blast
    with Cons.prems have "\<exists>u'. uf_run u1 ops = Some u' \<and> uf_inv u' \<and> length (parent u') = n"
      by (intro Cons.IH) auto
    with u1 OpFind show ?thesis by simp
  next
    case (OpUnion x y)
    with Cons.prems have "x < length (parent u)" "y < length (parent u)" by auto
    from union_ok [OF Cons.prems(2) this] obtain u1 where
      u1: "UnionFind_union u x y = Some u1" "uf_inv u1" "length (parent u1) = length (parent u)" by blast
    with Cons.prems have "\<exists>u'. uf_run u1 ops = Some u' \<and> uf_inv u' \<and> length (parent u') = n"
      by (intro Cons.IH) auto
    with u1 OpUnion show ?thesis by simp
  qed
qed

text \<open>
  Claim C10.  Start from the forest over \<open>0..n-1\<close> and run any sequence of \<open>find\<close>
  and \<open>union\<close> calls on indices below \<open>n\<close>.  Every call returns, and in the state
  \<open>u\<close> reached: the parent chain of every index ends in a fixed point
  \<open>parent[r] = r\<close>; \<open>find(x)\<close> returns that fixed point and leaves the root of
  every index as it was; \<open>union(x, y)\<close> returns, and afterwards two indices are in the
  same set exactly when they were before, or one was in the set of \<open>x\<close> and the other in
  the set of \<open>y\<close>.
\<close>
theorem unionfind_forest:
  assumes "list_all (op_ok n) ops"
  shows "\<exists>u. uf_run (UnionFind_new n) ops = Some u \<and> length (parent u) = n \<and>
     (\<forall>x < n. \<exists>r u'. root_of (parent u) x r \<and> r < n \<and> parent u ! r = r \<and>
         UnionFind_find u x = Some (u', r) \<and> length (parent u') = n \<and>
         (\<forall>z s. root_of (parent u') z s = root_of (parent u) z s)) \<and>
     (\<forall>x < n. \<forall>y < n. \<exists>u'. UnionFind_union u x y = Some u' \<and> length (parent u') = n \<and>
         (\<forall>c d. same_set u' c d =
            (same_set u c d \<or> (same_set u c x \<and> same_set u y d) \<or>
             (same_set u c y \<and> same_set u x d))))"
proof -
  from uf_run_inv [OF assms UnionFind_new_inv] obtain u where
    u: "uf_run (UnionFind_new n) ops = Some u" "uf_inv u" "length (parent u) = n" by blast
  have f: "\<exists>r u'. root_of (parent u) x r \<and> r < n \<and> parent u ! r = r \<and>
         UnionFind_find u x = Some (u', r) \<and> length (parent u') = n \<and>
         (\<forall>z s. root_of (parent u') z s = root_of (parent u) z s)" if "x < n" for x
  proof -
    from that u have "x < length (parent u)" by simp
    from find_ok [OF u(2) this] obtain u' r where
      "UnionFind_find u x = Some (u', r)" "root_of (parent u) x r" "length (parent u') = length (parent u)"
      "\<forall>z s. root_of (parent u') z s = root_of (parent u) z s" by blast
    with root_of_is_root [of "parent u" x r] u(3) show ?thesis by auto
  qed
  have g: "\<exists>u'. UnionFind_union u x y = Some u' \<and> length (parent u') = n \<and>
         (\<forall>c d. same_set u' c d =
            (same_set u c d \<or> (same_set u c x \<and> same_set u y d) \<or>
             (same_set u c y \<and> same_set u x d)))" if "x < n" "y < n" for x y
  proof -
    from that u have "x < length (parent u)" "y < length (parent u)" by simp_all
    from union_ok [OF u(2) this] u(3) show ?thesis by auto
  qed
  from u f g show ?thesis by blast
qed

theorem unionfind_forest_witness:
  "list_all (op_ok 3) [OpUnion 0 1, OpFind 1, OpUnion 1 2] \<and>
   uf_run (UnionFind_new 3) [OpUnion 0 1, OpFind 1, OpUnion 1 2] =
     Some \<lparr>parent = [0, 0, 0], rank = [1, 0, 0]\<rparr> \<and>
   (\<exists>u. uf_run (UnionFind_new 3) [OpUnion 0 1, OpFind 1, OpUnion 1 2] = Some u \<and>
     length (parent u) = 3 \<and>
     (\<forall>x < 3. \<exists>r u'. root_of (parent u) x r \<and> r < 3 \<and> parent u ! r = r \<and>
         UnionFind_find u x = Some (u', r) \<and> length (parent u') = 3 \<and>
         (\<forall>z s. root_of (parent u') z s = root_of (parent u) z s)) \<and>
     (\<forall>x < 3. \<forall>y < 3. \<exists>u'. UnionFind_union u x y = Some u' \<and> length (parent u') = 3 \<and>
         (\<forall>c d. same_set u' c d =
            (same_set u c d \<or> (same_set u c x \<and> same_set u y d) \<or>
             (same_set u c y \<and> same_set u x d)))))"
proof -
  have h: "list_all (op_ok 3) [OpUnion 0 1, OpFind 1, OpUnion 1 2]" by simp
  have i: "UnionFind_new 3 = \<lparr>parent = [0, Suc 0, 2], rank = [0, 0, 0]\<rparr>"
    by (simp add: UnionFind_new_def upt_rec numeral_3_eq_3)
  have f1: "UnionFind_find \<lparr>parent = [0, Suc 0, 2], rank = [0, 0, 0]\<rparr> 0 =
      Some (\<lparr>parent = [0, Suc 0, 2], rank = [0, 0, 0]\<rparr>, 0)"
    "UnionFind_find \<lparr>parent = [0, Suc 0, 2], rank = [0, 0, 0]\<rparr> (Suc 0) =
      Some (\<lparr>parent = [0, Suc 0, 2], rank = [0, 0, 0]\<rparr>, Suc 0)"
    by (simp_all add: UnionFind_find.simps)
  have u1: "UnionFind_union \<lparr>parent = [0, Suc 0, 2], rank = [0, 0, 0]\<rparr> 0 (Suc 0) =
      Some \<lparr>parent = [0, 0, 2], rank = [Suc 0, 0, 0]\<rparr>"
    by (simp add: UnionFind_union_def f1)
  have f2: "UnionFind_find \<lparr>parent = [0, 0, 2], rank = [Suc 0, 0, 0]\<rparr> 0 =
      Some (\<lparr>parent = [0, 0, 2], rank = [Suc 0, 0, 0]\<rparr>, 0)"
    "UnionFind_find \<lparr>parent = [0, 0, 2], rank = [Suc 0, 0, 0]\<rparr> 2 =
      Some (\<lparr>parent = [0, 0, 2], rank = [Suc 0, 0, 0]\<rparr>, 2)"
    by (simp_all add: UnionFind_find.simps)
  have f3: "UnionFind_find \<lparr>parent = [0, 0, 2], rank = [Suc 0, 0, 0]\<rparr> (Suc 0) =
      Some (\<lparr>parent = [0, 0, 2], rank = [Suc 0, 0, 0]\<rparr>, 0)"
    by (subst UnionFind_find.simps) (simp add: f2)
  have u2: "UnionFind_union \<lparr>parent = [0, 0, 2], rank = [Suc 0, 0, 0]\<rparr> (Suc 0) 2 =
      Some \<lparr>parent = [0, 0, 0], rank = [Suc 0, 0, 0]\<rparr>"
    by (simp add: UnionFind_union_def f3 f2)
  have run: "uf_run (UnionFind_new 3) [OpUnion 0 1, OpFind 1, OpUnion 1 2] =
     Some \<lparr>parent = [0, 0, 0], rank = [1, 0, 0]\<rparr>"
    by (simp add: i u1 f3 u2)
  from unionfind_forest [OF h] h run show ?thesis by blast
qed

section \<open>Properties of the cluster orchestration\<close>


lemma map_of_gridPush:
  "map_of (gridPush key index grid) key' =
     (if key' = key
      then Some ((case map_of grid key of None \<Rightarrow> [] | Some xs \<Rightarrow> xs) @ [index])
      else map_of grid key')"
  by (auto simp: gridPush_def Let_def update_conv' split: option.splits)

lemma grid_belowD:
  "grid_below n grid \<Longrightarrow> map_of grid key = Some xs \<Longrightarrow> j \<in> set xs \<Longrightarrow> j < n"
  unfolding grid_below_def by blast

lemma grid_below_push:
  "grid_below n grid \<Longrightarrow> index < n \<Longrightarrow> grid_below n (gridPush key index grid)"
  unfolding grid_below_def [of n "gridPush key index grid"] map_of_gridPush
  by (auto split: option.splits if_splits dest: grid_belowD grid_belowD [OF _ sym])

lemma grid_below_fold:
  "grid_below n grid \<Longrightarrow> \<forall>p \<in> set ps. snd p < n \<Longrightarrow>
   grid_below n (fold (\<lambda>(event, index). gridPush (f event) index) ps grid)"
  by (induction ps arbitrary: grid) (auto simp: grid_below_push)

lemma createGridIndex_below:
  "grid_below (length cs) (fst (createGridIndex cs r))"
proof -
  have "grid_below (length cs) []" by (simp add: grid_below_def)
  moreover have "\<forall>p \<in> set (zip cs [0..<length cs]). snd p < length cs"
    by (auto dest: set_zip_rightD)
  ultimately show ?thesis
    by (simp add: createGridIndex_def Let_def grid_below_fold)
qed

lemma getNearbyIndices_below:
  "grid_below n grid \<Longrightarrow> j \<in> set (getNearbyIndices grid row col) \<Longrightarrow> j < n"
  by (auto simp: getNearbyIndices_def split: option.splits dest: grid_belowD grid_belowD [OF _ sym])

lemma unionNearby_ok:
  assumes "uf_inv u" "length (parent u) = n" "i < n" "\<forall>j \<in> set js. j < n"
  shows "\<exists>u'. unionNearby cs r i js u = Some u' \<and> uf_inv u' \<and> length (parent u') = n"
  using assms
proof (induction js arbitrary: u)
  case Nil
  then show ?case by simp
next
  case (Cons j js)
  show ?case
  proof (cases "i < j \<and> js_le (Fin (calculateDistance (cs ! i) (cs ! j))) r")
    case True
    from Cons.prems have "i < length (parent u)" "j < length (parent u)" by auto
    from union_ok [OF Cons.prems(1) this] obtain u1 where
      u1: "UnionFind_union u i j = Some u1" "uf_inv u1" "length (parent u1) = length (parent u)" by blast
    with Cons.prems have "\<exists>u'. unionNearby cs r i js u1 = Some u' \<and> uf_inv u' \<and> length (parent u') = n"
      by (intro Cons.IH) auto
    with True u1 show ?thesis by simp
  next
    case False
    with Cons.IH [of u] Cons.prems show ?thesis by auto
  qed
qed

lemma unionLoop_ok:
  assumes "uf_inv u" "length (parent u) = n" "\<forall>i \<in> set is. i < n" "grid_below n grid"
  shows "\<exists>u'. unionLoop cs r grid dpc is u = Some u' \<and> uf_inv u' \<and> length (parent u') = n"
  using assms
proof (induction "is" arbitrary: u)
  case Nil
  then show ?case by simp
next
  case (Cons i "is")
  obtain row col where rc: "cellOf dpc (cs ! i) = (row, col)" by (cases "cellOf dpc (cs ! i)")
  have "\<forall>j \<in> set (getNearbyIndices grid row col). j < n"
    using Cons.prems(4) by (auto dest: getNearbyIndices_below)
  with Cons.prems unionNearby_ok [of u n i "getNearbyIndices grid row col" cs r]
  obtain u1 where u1: "unionNearby cs r i (getNearbyIndices grid row col) u = Some u1"
    "uf_inv u1" "length (parent u1) = n" by auto
  with Cons.prems have "\<exists>u'. unionLoop cs r grid dpc is u1 = Some u' \<and> uf_inv u' \<and> length (parent u') = n"
    by (intro Cons.IH) auto
  with rc u1 show ?case by simp
qed

lemma unionPhase_ok:
  "\<exists>uF. unionPhase cs r = Some uF \<and> uf_inv uF \<and> length (parent uF) = length cs"
proof -
  obtain grid dpc where g: "createGridIndex cs r = (grid, dpc)" by (cases "createGridIndex cs r")
  with createGridIndex_below [of cs r] have "grid_below (length cs) grid" by simp
  then have "\<exists>u'. unionLoop cs r grid dpc [0..<length cs] (UnionFind_new (length cs)) = Some u' \<and>
      uf_inv u' \<and> length (parent u') = length cs"
    by (intro unionLoop_ok) (simp_all add: UnionFind_new_inv)
  with g show ?thesis by (simp add: unionPhase_def Let_def)
qed

lemma assignLabels_ok:
  assumes "uf_inv u" "length (parent u) = n"
    and "\<And>z s. root_of (parent u) z s = root_of pF z s"
    and "\<forall>p \<in> set ies. snd p < n"
    and "\<And>r. map_of m r = map_option (generateClusterId env) (J r)"
    and "\<And>r j. J r = Some j \<Longrightarrow> j < k"
    and "inj_map J"
  shows "\<exists>outs J'. assignLabels env ies u m k = Some outs \<and> length outs = length ies \<and>
           J \<subseteq>\<^sub>m J' \<and> inj_map J' \<and> (\<forall>r j. J' r = Some j \<longrightarrow> j < k + length ies) \<and>
           (\<forall>t < length ies. \<exists>rt j. root_of pF (snd (ies ! t)) rt \<and> J' rt = Some j \<and>
              outs ! t = withClusterId (fst (ies ! t)) (JStr (generateClusterId env j)))"
  using assms
proof (induction ies arbitrary: u m k J)
  case Nil
  then show ?case by (intro exI [of _ "[]"] exI [of _ J]) auto
next
  case (Cons p ies)
  obtain event index where p: "p = (event, index)" by (cases p)
  with Cons.prems have ix: "index < length (parent u)" by simp
  from find_ok [OF Cons.prems(1) ix] obtain u' root where
    f: "UnionFind_find u index = Some (u', root)" and rt: "root_of (parent u) index root" and
    len': "length (parent u') = length (parent u)" and inv': "uf_inv u'" and
    eq': "\<And>z s. root_of (parent u') z s = root_of (parent u) z s"
    by blast
  define m' where "m' = (if map_of m root = None then AList.update root (generateClusterId env k) m else m)"
  define k' where "k' = (if map_of m root = None then Suc k else k)"
  define J1 where "J1 = (if map_of m root = None then J(root \<mapsto> k) else J)"
  have Jnone: "map_of m root = None \<longleftrightarrow> J root = None"
    by (simp add: Cons.prems(5))
  have m'J: "\<And>r. map_of m' r = map_option (generateClusterId env) (J1 r)"
    by (simp add: m'_def J1_def update_conv' Cons.prems(5))
  have J1k: "\<And>r j. J1 r = Some j \<Longrightarrow> j < k'"
    using Cons.prems(6) by (auto simp: J1_def k'_def less_Suc_eq split: if_splits)
  have J1inj: "inj_map J1"
    using Cons.prems(6,7) unfolding inj_map_def J1_def
    by (auto split: if_splits dest: less_irrefl_nat)
  have JJ1: "J \<subseteq>\<^sub>m J1"
    using Jnone by (auto simp: J1_def map_le_def)
  obtain j0 where j0: "J1 root = Some j0"
    using Jnone by (cases "J root") (auto simp: J1_def)
  have kk: "k' \<le> Suc k" by (simp add: k'_def)
  from Cons.prems len' eq' have
    "\<exists>outs J'. assignLabels env ies u' m' k' = Some outs \<and> length outs = length ies \<and>
       J1 \<subseteq>\<^sub>m J' \<and> inj_map J' \<and> (\<forall>r j. J' r = Some j \<longrightarrow> j < k' + length ies) \<and>
       (\<forall>t < length ies. \<exists>rt j. root_of pF (snd (ies ! t)) rt \<and> J' rt = Some j \<and>
          outs ! t = withClusterId (fst (ies ! t)) (JStr (generateClusterId env j)))"
    by (intro Cons.IH [OF inv' _ _ _ m'J J1k J1inj]) auto
  then obtain outs J' where
    a: "assignLabels env ies u' m' k' = Some outs" and l: "length outs = length ies" and
    le: "J1 \<subseteq>\<^sub>m J'" and inj: "inj_map J'" and bd: "\<forall>r j. J' r = Some j \<longrightarrow> j < k' + length ies" and
    each: "\<forall>t < length ies. \<exists>rt j. root_of pF (snd (ies ! t)) rt \<and> J' rt = Some j \<and>
          outs ! t = withClusterId (fst (ies ! t)) (JStr (generateClusterId env j))"
    by blast
  let ?hd = "withClusterId event (JStr (generateClusterId env j0))"
  have run: "assignLabels env (p # ies) u m k = Some (?hd # outs)"
    using f a j0 m'J [of root] by (simp add: p m'_def k'_def Let_def split: if_splits)
  from le j0 have J'root: "J' root = Some j0" by (auto simp: map_le_def dom_def)
  from rt have rtF: "root_of pF index root" by (simp add: Cons.prems(3))
  show ?case
  proof (intro exI [of _ "?hd # outs"] exI [of _ J'] conjI)
    show "assignLabels env (p # ies) u m k = Some (?hd # outs)" by (rule run)
    show "length (?hd # outs) = length (p # ies)" using l by simp
    show "J \<subseteq>\<^sub>m J'" using JJ1 le by (rule map_le_trans)
    show "inj_map J'" by (rule inj)
    show "\<forall>r j. J' r = Some j \<longrightarrow> j < k + length (p # ies)"
      using bd kk by fastforce
    show "\<forall>t < length (p # ies). \<exists>rt j. root_of pF (snd ((p # ies) ! t)) rt \<and> J' rt = Some j \<and>
        (?hd # outs) ! t = withClusterId (fst ((p # ies) ! t)) (JStr (generateClusterId env j))"
    proof (intro allI impI)
      fix t assume "t < length (p # ies)"
      show "\<exists>rt j. root_of pF (snd ((p # ies) ! t)) rt \<and> J' rt = Some j \<and>
        (?hd # outs) ! t = withClusterId (fst ((p # ies) ! t)) (JStr (generateClusterId env j))"
      proof (cases t)
        case 0
        with rtF J'root p show ?thesis by auto
      next
        case (Suc t')
        with \<open>t < length (p # ies)\<close> each show ?thesis by simp
      qed
    qed
  qed
qed

lemma getProp_withClusterId:
  "getProp (withClusterId e v) name = (if name = ''clusterId'' then v else getProp e name)"
  by (cases e) (simp_all add: withClusterId_def update_conv')

lemma clusterValid_ok:
  "\<exists>uF outs J. unionPhase (map coordsOf vs) r = Some uF \<and> uf_inv uF \<and>
      length (parent uF) = length vs \<and>
      clusterValid env vs r = Some outs \<and> length outs = length vs \<and> inj_map J \<and>
      (\<forall>rt j. J rt = Some j \<longrightarrow> j < length vs) \<and>
      (\<forall>t < length vs. \<exists>rt j. root_of (parent uF) t rt \<and> J rt = Some j \<and>
          outs ! t = withClusterId (vs ! t) (JStr (generateClusterId env j)))"
proof -
  let ?n = "length vs"
  from unionPhase_ok [of "map coordsOf vs" r] obtain uF where
    uF: "unionPhase (map coordsOf vs) r = Some uF" "uf_inv uF" "length (parent uF) = ?n"
    by auto
  have "\<exists>outs J'. assignLabels env (zip vs [0..<?n]) uF [] 0 = Some outs \<and>
           length outs = length (zip vs [0..<?n]) \<and>
           Map.empty \<subseteq>\<^sub>m J' \<and> inj_map J' \<and>
           (\<forall>r j. J' r = Some j \<longrightarrow> j < 0 + length (zip vs [0..<?n])) \<and>
           (\<forall>t < length (zip vs [0..<?n]). \<exists>rt j. root_of (parent uF) (snd (zip vs [0..<?n] ! t)) rt \<and>
              J' rt = Some j \<and>
              outs ! t = withClusterId (fst (zip vs [0..<?n] ! t)) (JStr (generateClusterId env j)))"
    by (rule assignLabels_ok [OF uF(2) uF(3)]) (auto simp: inj_map_def dest: set_zip_rightD)
  then obtain outs J where
    a: "assignLabels env (zip vs [0..<?n]) uF [] 0 = Some outs" and
    l: "length outs = ?n" and inj: "inj_map J" and
    bd: "\<forall>r j. J r = Some j \<longrightarrow> j < ?n" and
    each: "\<forall>t < ?n. \<exists>rt j. root_of (parent uF) t rt \<and> J rt = Some j \<and>
              outs ! t = withClusterId (vs ! t) (JStr (generateClusterId env j))"
    by auto
  from uF a have "clusterValid env vs r = Some outs" by (simp add: clusterValid_def)
  with uF l inj bd each show ?thesis by blast
qed

lemma clusterValid_Nil: "clusterValid env [] r = Some []"
  using clusterValid_ok [of "[]" r env] by auto

lemma clusterEvents_run:
  assumes "\<not> js_le r (Fin 0)"
  shows "clusterEvents env (JArr evs) (JNum r) =
     (case filterEvents env evs of
        (ws, Inl e) \<Rightarrow> Some \<lparr>warnings = ws, result = Inl e\<rparr>
      | (ws, Inr vs) \<Rightarrow>
          map_option (\<lambda>out. \<lparr>warnings = ws, result = Inr out\<rparr>) (clusterValid env vs r))"
proof (cases evs)
  case Nil
  with assms show ?thesis by (simp add: clusterEvents_def clusterValid_Nil)
next
  case (Cons e es)
  obtain ws res where f: "filterEvents env evs = (ws, res)" by (cases "filterEvents env evs")
  show ?thesis
  proof (cases res)
    case (Inl err)
    with assms f Cons show ?thesis by (simp add: clusterEvents_def del: filterEvents.simps)
  next
    case (Inr vs)
    with assms f Cons show ?thesis
      by (cases vs) (simp_all add: clusterEvents_def clusterValid_Nil del: filterEvents.simps)
  qed
qed

lemma filterEvents_snd: "snd (filterEvents env1 evs) = snd (filterEvents env2 evs)"
  by (induction evs) (auto simp: Let_def split: prod.splits)

lemma same_label_iff:
  assumes d: "distinct (map (generateClusterId env) [0..<n])"
    and inj: "inj_map J" and bd: "\<forall>rt j. J rt = Some j \<longrightarrow> j < n"
    and a: "root_of p a ra" "J ra = Some ja" "outa = withClusterId ea (JStr (generateClusterId env ja))"
    and b: "root_of p b rb" "J rb = Some jb" "outb = withClusterId eb (JStr (generateClusterId env jb))"
  shows "(clusterIdOf outa = clusterIdOf outb) = (ra = rb)"
proof -
  from bd a b have lt: "ja < n" "jb < n" by auto
  from d have "inj_on (generateClusterId env) (set [0..<n])" by (simp add: distinct_map)
  with lt have "(generateClusterId env ja = generateClusterId env jb) = (ja = jb)"
    by (auto dest: inj_onD)
  moreover have "(ja = jb) = (ra = rb)"
    using inj a(2) b(2) by (auto simp: inj_map_def)
  ultimately show ?thesis
    by (simp add: a b clusterIdOf_def getProp_withClusterId)
qed

















lemma filterEvents_length:
  "filterEvents env evs = (ws, Inr vs) \<Longrightarrow> length vs \<le> length evs"
proof (induction evs arbitrary: ws vs)
  case Nil
  then show ?case by simp
next
  case (Cons e evs)
  obtain ws' res where f: "filterEvents env evs = (ws', res)" by (cases "filterEvents env evs")
  with Cons.prems obtain vs' where res: "res = Inr vs'"
    by (cases res) (auto simp: Let_def split: if_splits)
  with Cons.IH f have "length vs' \<le> length evs" by simp
  with Cons.prems f res show ?case by (auto simp: Let_def split: if_splits)
qed

lemma clusterValid_sameGrouping:
  assumes d1: "distinct (map (generateClusterId env1) [0..<n])"
    and d2: "distinct (map (generateClusterId env2) [0..<n])" and n: "length vs \<le> n"
  shows "\<exists>a b. clusterValid env1 vs r = Some a \<and> clusterValid env2 vs r = Some b \<and> sameGrouping a b"
proof -
  from clusterValid_ok [of vs r env1] obtain uF a J1 where
    u1: "unionPhase (map coordsOf vs) r = Some uF" and a: "clusterValid env1 vs r = Some a"
    and la: "length a = length vs" and i1: "inj_map J1"
    and b1: "\<forall>rt j. J1 rt = Some j \<longrightarrow> j < length vs"
    and e1: "\<forall>t < length vs. \<exists>rt j. root_of (parent uF) t rt \<and> J1 rt = Some j \<and>
          a ! t = withClusterId (vs ! t) (JStr (generateClusterId env1 j))"
    by blast
  from clusterValid_ok [of vs r env2] u1 obtain b J2 where
    b: "clusterValid env2 vs r = Some b"
    and lb: "length b = length vs" and i2: "inj_map J2"
    and b2: "\<forall>rt j. J2 rt = Some j \<longrightarrow> j < length vs"
    and e2: "\<forall>t < length vs. \<exists>rt j. root_of (parent uF) t rt \<and> J2 rt = Some j \<and>
          b ! t = withClusterId (vs ! t) (JStr (generateClusterId env2 j))"
    by auto
  from b1 n have b1': "\<forall>rt j. J1 rt = Some j \<longrightarrow> j < n" by fastforce
  from b2 n have b2': "\<forall>rt j. J2 rt = Some j \<longrightarrow> j < n" by fastforce
  have "(clusterIdOf (a ! s) = clusterIdOf (a ! t)) = (clusterIdOf (b ! s) = clusterIdOf (b ! t))"
    if s: "s < length vs" and t: "t < length vs" for s t
  proof -
    from e1 s obtain rs js where s1: "root_of (parent uF) s rs" "J1 rs = Some js"
      "a ! s = withClusterId (vs ! s) (JStr (generateClusterId env1 js))" by blast
    from e1 t obtain rt jt where t1: "root_of (parent uF) t rt" "J1 rt = Some jt"
      "a ! t = withClusterId (vs ! t) (JStr (generateClusterId env1 jt))" by blast
    from e2 s obtain rs' js' where s2: "root_of (parent uF) s rs'" "J2 rs' = Some js'"
      "b ! s = withClusterId (vs ! s) (JStr (generateClusterId env2 js'))" by blast
    from e2 t obtain rt' jt' where t2: "root_of (parent uF) t rt'" "J2 rt' = Some jt'"
      "b ! t = withClusterId (vs ! t) (JStr (generateClusterId env2 jt'))" by blast
    from s1(1) s2(1) have rs: "rs' = rs" by (rule root_of_det [symmetric])
    from t1(1) t2(1) have rt: "rt' = rt" by (rule root_of_det [symmetric])
    have "(clusterIdOf (a ! s) = clusterIdOf (a ! t)) = (rs = rt)"
      by (rule same_label_iff [OF d1 i1 b1' s1 t1])
    moreover have "(clusterIdOf (b ! s) = clusterIdOf (b ! t)) = (rs' = rt')"
      by (rule same_label_iff [OF d2 i2 b2' s2 t2])
    ultimately show ?thesis by (simp add: rs rt)
  qed
  moreover have "getProp (a ! t) name = getProp (b ! t) name"
    if t: "t < length vs" and name: "name \<noteq> ''clusterId''" for t name
  proof -
    from e1 t obtain l1 where "a ! t = withClusterId (vs ! t) (JStr l1)" by blast
    moreover from e2 t obtain l2 where "b ! t = withClusterId (vs ! t) (JStr l2)" by blast
    ultimately show ?thesis using name by (simp add: getProp_withClusterId)
  qed
  ultimately have "sameGrouping a b" using la lb by (simp add: sameGrouping_def)
  with a b show ?thesis by blast
qed

text \<open>
  What the labels depend on.  Take two runs of \<open>clusterEvents\<close> on the same arguments,
  under two runtimes in each of which \<open>generateClusterId\<close> returns pairwise distinct
  strings (here: at its first \<open>n\<close> calls, for an array of \<open>n\<close> elements, which
  covers every call the run can make).  Both return; both throw the same error, or both
  return arrays that list the same events and in which two positions carry the same
  \<open>clusterId\<close> in the first run exactly when they do in the second.  The grouping
  can therefore differ between two runs only through a repeated identifier.
\<close>
lemma clusterEvents_partition_deterministic:
  assumes d1: "distinct (map (generateClusterId env1) [0..<arrayLength events])"
    and d2: "distinct (map (generateClusterId env2) [0..<arrayLength events])"
  shows "\<exists>o1 o2. clusterEvents env1 events radius = Some o1 \<and>
                 clusterEvents env2 events radius = Some o2 \<and>
                 sameOutcome (result o1) (result o2)"
proof (cases "\<exists>evs r. events = JArr evs \<and> radius = JNum r \<and> \<not> js_le r (Fin 0)")
  case False
  have "\<exists>e. \<forall>env. clusterEvents env events radius = Some \<lparr>warnings = [], result = Inl e\<rparr>"
  proof (cases events)
    case (JArr evs)
    with False show ?thesis by (cases radius) (auto simp: clusterEvents_def)
  qed (auto simp: clusterEvents_def)
  then obtain e where "\<And>env. clusterEvents env events radius = Some \<lparr>warnings = [], result = Inl e\<rparr>"
    by blast
  then show ?thesis by simp
next
  case True
  then obtain evs r where ev: "events = JArr evs" "radius = JNum r" and r: "\<not> js_le r (Fin 0)"
    by blast
  obtain ws1 res1 where f1: "filterEvents env1 evs = (ws1, res1)" by (cases "filterEvents env1 evs")
  obtain ws2 res2 where f2: "filterEvents env2 evs = (ws2, res2)" by (cases "filterEvents env2 evs")
  from filterEvents_snd [of env1 evs env2] f1 f2 have res: "res2 = res1" by simp
  show ?thesis
  proof (cases res1)
    case (Inl e)
    with f1 f2 res show ?thesis by (simp add: ev clusterEvents_run [OF r])
  next
    case (Inr vs)
    with f1 have "length vs \<le> length evs" by (auto dest: filterEvents_length)
    with clusterValid_sameGrouping [of env1 "length evs" env2 vs r] d1 d2 ev
    obtain a b where "clusterValid env1 vs r = Some a" "clusterValid env2 vs r = Some b"
      "sameGrouping a b" by auto
    with f1 f2 res Inr show ?thesis by (simp add: ev clusterEvents_run [OF r])
  qed
qed

section \<open>Concrete evaluations\<close>

lemma valid_sample:
  "isValidCoordinate (getProp nyc ''coordinates'')"
  "\<not> isValidCoordinate (getProp noCoordinates ''coordinates'')"
  "\<not> isValidCoordinate (getProp outOfRange ''coordinates'')"
  "\<not> isValidCoordinate (getProp zeroIdEvent ''coordinates'')"
  "isValidCoordinate (getProp relabelled ''coordinates'')"
  "isValidCoordinate (getProp helsinkiA ''coordinates'')"
  "isValidCoordinate (getProp helsinkiB ''coordinates'')"
  by (simp_all add: isValidCoordinate_def js_ge_def nyc_def noCoordinates_def outOfRange_def
        zeroIdEvent_def relabelled_def helsinkiA_def helsinkiB_def)

lemma filter_helsinki: "filterEvents env [helsinkiA, helsinkiB] = ([], Inr [helsinkiA, helsinkiB])"
  using valid_sample(6,7) by (simp add: invalidEvent_iff helsinkiA_def helsinkiB_def)

lemma coords_helsinki:
  "coordsOf helsinkiA = \<lparr>latitude = 60, longitude = 25.0001\<rparr>"
  "coordsOf helsinkiB = \<lparr>latitude = 60, longitude = 25.0093\<rparr>"
  by (simp_all add: coordsOf_def helsinkiA_def helsinkiB_def)

lemma distance_helsinki: "calculateDistance (coordsOf helsinkiA) (coordsOf helsinkiB) \<le> 1000"
  unfolding coords_helsinki by (rule distance_60_north)

lemma cells_helsinki:
  "cellOf (Fin (72 / 8015)) (coordsOf helsinkiA) = (Fin 6679, Fin 2782)"
  "cellOf (Fin (72 / 8015)) (coordsOf helsinkiB) = (Fin 6679, Fin 2784)"
  by (simp_all add: cellOf_def Let_def coords_helsinki)

lemma grid_helsinki:
  "createGridIndex [coordsOf helsinkiA, coordsOf helsinkiB] (Fin 1000) =
     ([((Fin 6679, Fin 2782), [0]), ((Fin 6679, Fin 2784), [Suc 0])], Fin (72 / 8015))"
  by (simp add: createGridIndex_def Let_def cells_helsinki gridPush_def)

lemma near_helsinki:
  "getNearbyIndices [((Fin 6679, Fin 2782), [0]), ((Fin 6679, Fin 2784), [Suc 0])]
     (Fin 6679) (Fin 2782) = [0]"
  "getNearbyIndices [((Fin 6679, Fin 2782), [0]), ((Fin 6679, Fin 2784), [Suc 0])]
     (Fin 6679) (Fin 2784) = [Suc 0]"
  by (simp_all add: getNearbyIndices_def)

lemma phase_helsinki:
  "unionPhase [coordsOf helsinkiA, coordsOf helsinkiB] (Fin 1000) =
     Some (UnionFind_new (Suc (Suc 0)))"
  by (simp add: unionPhase_def grid_helsinki cells_helsinki near_helsinki)


lemma find_init2:
  "UnionFind_find (UnionFind_new (Suc (Suc 0))) 0 = Some (UnionFind_new (Suc (Suc 0)), 0)"
  "UnionFind_find (UnionFind_new (Suc (Suc 0))) (Suc 0) = Some (UnionFind_new (Suc (Suc 0)), Suc 0)"
  by (simp_all add: UnionFind_find.simps UnionFind_new_def)

lemma labels_two_roots:
  "assignLabels envA [(a, 0), (b, Suc 0)] (UnionFind_new (Suc (Suc 0))) [] 0 =
     Some [withClusterId a (JStr ''cluster_1700000000000_0''),
           withClusterId b (JStr ''cluster_1700000000000_1'')]"
  by (simp add: find_init2 generateClusterId_def envA_def digits.simps)

text \<open>
  Claim C1 fails on the code.  Two valid events on the parallel of 60 degrees north, at
  longitudes 25.0001 and 25.0093, are less than 1000 m apart (about 511 m), so with
  radius 1000 they lie in one connected component of \<open>distance <= radius\<close>; yet
  \<open>clusterEvents\<close> gives them two different labels, because their grid cells are
  two columns apart and the pair is never compared.
\<close>
theorem near_pair_split:
  "calculateDistance (coordsOf helsinkiA) (coordsOf helsinkiB) \<le> 1000 \<and>
   clusterEvents envA (JArr [helsinkiA, helsinkiB]) (JNum (Fin 1000)) =
     Some \<lparr>warnings = [], result = Inr
       [withClusterId helsinkiA (JStr ''cluster_1700000000000_0''),
        withClusterId helsinkiB (JStr ''cluster_1700000000000_1'')]\<rparr>"
proof -
  have "clusterValid envA [helsinkiA, helsinkiB] (Fin 1000) =
     Some [withClusterId helsinkiA (JStr ''cluster_1700000000000_0''),
           withClusterId helsinkiB (JStr ''cluster_1700000000000_1'')]"
    by (simp add: clusterValid_def phase_helsinki labels_two_roots del: assignLabels.simps)
  then show ?thesis
    by (simp add: distance_helsinki clusterEvents_def filter_helsinki del: filterEvents.simps)
qed

text \<open>
  Claim C2 fails on the code.  The same two points are within the radius 1000 of each
  other; the grid built for that radius puts them in the cells \<open>(6679, 2782)\<close> and
  \<open>(6679, 2784)\<close>, two columns apart, and the 3x3 neighbourhood of the first point's
  cell holds the first point only.
\<close>
theorem neighbourhood_misses_near_point:
  "calculateDistance (coordsOf helsinkiA) (coordsOf helsinkiB) \<le> 1000 \<and>
   createGridIndex [coordsOf helsinkiA, coordsOf helsinkiB] (Fin 1000) =
     ([((Fin 6679, Fin 2782), [0]), ((Fin 6679, Fin 2784), [1])], Fin (72 / 8015)) \<and>
   cellOf (Fin (72 / 8015)) (coordsOf helsinkiA) = (Fin 6679, Fin 2782) \<and>
   cellOf (Fin (72 / 8015)) (coordsOf helsinkiB) = (Fin 6679, Fin 2784) \<and>
   getNearbyIndices [((Fin 6679, Fin 2782), [0]), ((Fin 6679, Fin 2784), [1])]
     (Fin 6679) (Fin 2782) = [0]"
  using distance_helsinki grid_helsinki cells_helsinki near_helsinki(1) by simp









lemma cells_nyc: "cellOf (Fin (72 / 8015)) (coordsOf nyc) = (Fin 4532, Fin (- 8239))"
  by (simp add: cellOf_def Let_def coordsOf_def nyc_def)

lemma phase_far_apart:
  "unionPhase [coordsOf helsinkiA, coordsOf nyc] (Fin 1000) = Some (UnionFind_new (Suc (Suc 0)))"
proof -
  have g: "createGridIndex [coordsOf helsinkiA, coordsOf nyc] (Fin 1000) =
     ([((Fin 6679, Fin 2782), [0]), ((Fin 4532, Fin (- 8239)), [Suc 0])], Fin (72 / 8015))"
    by (simp add: createGridIndex_def Let_def cells_helsinki cells_nyc gridPush_def)
  have n: "getNearbyIndices [((Fin 6679, Fin 2782), [0]), ((Fin 4532, Fin (- 8239)), [Suc 0])]
     (Fin 6679) (Fin 2782) = [0]"
    "getNearbyIndices [((Fin 6679, Fin 2782), [0]), ((Fin 4532, Fin (- 8239)), [Suc 0])]
     (Fin 4532) (Fin (- 8239)) = [Suc 0]"
    by (simp_all add: getNearbyIndices_def)
  show ?thesis
    by (simp add: unionPhase_def g cells_helsinki cells_nyc n)
qed

text \<open>
  Claim C8 fails on the code.  Two calls on the same array and radius, an event in Helsinki
  and one in New York with radius 1000: in a run whose identifiers differ the two events
  get different labels; in a run in which the clock and the random string repeat from one
  call of \<open>generateClusterId\<close> to the next, the two events, which are never
  united, get the same label.  The partition by \<open>clusterId\<close> is not the same in
  the two calls.
\<close>
theorem repeated_id_merges_labels:
  "clusterEvents envA (JArr [helsinkiA, nyc]) (JNum (Fin 1000)) =
     Some \<lparr>warnings = [], result = Inr
       [withClusterId helsinkiA (JStr ''cluster_1700000000000_0''),
        withClusterId nyc (JStr ''cluster_1700000000000_1'')]\<rparr> \<and>
   clusterEvents envC (JArr [helsinkiA, nyc]) (JNum (Fin 1000)) =
     Some \<lparr>warnings = [], result = Inr
       [withClusterId helsinkiA (JStr ''cluster_1700000000000_k3j9x2m1q''),
        withClusterId nyc (JStr ''cluster_1700000000000_k3j9x2m1q'')]\<rparr>"
proof -
  have fl: "filterEvents env [helsinkiA, nyc] = ([], Inr [helsinkiA, nyc])" for env
    using valid_sample(1,6) by (simp add: invalidEvent_iff helsinkiA_def nyc_def)
  have a: "clusterValid envA [helsinkiA, nyc] (Fin 1000) =
     Some [withClusterId helsinkiA (JStr ''cluster_1700000000000_0''),
           withClusterId nyc (JStr ''cluster_1700000000000_1'')]"
    by (simp add: clusterValid_def phase_far_apart labels_two_roots del: assignLabels.simps)
  have c: "clusterValid envC [helsinkiA, nyc] (Fin 1000) =
     Some [withClusterId helsinkiA (JStr ''cluster_1700000000000_k3j9x2m1q''),
           withClusterId nyc (JStr ''cluster_1700000000000_k3j9x2m1q'')]"
    by (simp add: clusterValid_def phase_far_apart find_init2 generateClusterId_def
          envA_def envC_def digits.simps)
  from a c show ?thesis
    by (simp add: clusterEvents_def fl del: filterEvents.simps)
qed

lemma clusterEvents_partition_deterministic_example:
  "distinct (map (generateClusterId envA) [0..<arrayLength (JArr [helsinkiA, nyc, helsinkiB])]) \<and>
   distinct (map (generateClusterId envB) [0..<arrayLength (JArr [helsinkiA, nyc, helsinkiB])]) \<and>
   (\<exists>o1 o2. clusterEvents envA (JArr [helsinkiA, nyc, helsinkiB]) (JNum (Fin 1000)) = Some o1 \<and>
            clusterEvents envB (JArr [helsinkiA, nyc, helsinkiB]) (JNum (Fin 1000)) = Some o2 \<and>
            sameOutcome (result o1) (result o2))"
proof -
  have u: "[0..<arrayLength (JArr [helsinkiA, nyc, helsinkiB])] = [0, 1, 2]"
    by (simp add: upt_rec)
  have a: "distinct (map (generateClusterId envA) [0..<arrayLength (JArr [helsinkiA, nyc, helsinkiB])])"
    unfolding u by (simp add: generateClusterId_def envA_def digits.simps)
  have b: "distinct (map (generateClusterId envB) [0..<arrayLength (JArr [helsinkiA, nyc, helsinkiB])])"
    unfolding u by (simp add: generateClusterId_def envA_def envB_def digits.simps)
  from clusterEvents_partition_deterministic [OF a b, of "JNum (Fin 1000)"] a b
  show ?thesis by blast
qed

section \<open>Properties of the geocoding cache\<close>

lemma lastUseFrom_snoc:
  "lastUseFrom i (ops @ [op]) k =
     (if touches op k then Suc (i + length ops) else lastUseFrom i ops k)"
  by (induction ops arbitrary: i) (auto simp: Let_def)

lemma lastUseFrom_le: "lastUseFrom i ops k \<le> i + length ops"
proof (induction ops arbitrary: i)
  case Nil
  show ?case by simp
next
  case (Cons op ops)
  from Cons [of "Suc i"] show ?case by (simp add: Let_def)
qed

lemma lastUse_snoc:
  "lastUse (ops @ [op]) k = (if touches op k then Suc (length ops) else lastUse ops k)"
  by (simp add: lastUse_def lastUseFrom_snoc)

lemma lastUse_le: "lastUse ops k \<le> length ops"
  using lastUseFrom_le [of 0 ops k] by (simp add: lastUse_def)

lemma update_absent: "k \<notin> fst ` set al \<Longrightarrow> AList.update k v al = al @ [(k, v)]"
  by (induction al) auto

lemma keys_delete: "map fst (AList.delete k al) = filter (\<lambda>x. x \<noteq> k) (map fst al)"
  by (induction al) auto

lemma sorted_touch:
  assumes "sorted_wrt (\<lambda>a b. lastUse ops a < lastUse ops b) ks" "k \<notin> set ks" "touches op k"
    "\<And>k'. k' \<noteq> k \<Longrightarrow> \<not> touches op k'"
  shows "sorted_wrt (\<lambda>a b. lastUse (ops @ [op]) a < lastUse (ops @ [op]) b) (ks @ [k])"
proof -
  have same: "\<And>x. x \<in> set ks \<Longrightarrow> lastUse (ops @ [op]) x = lastUse ops x"
  proof -
    fix x assume "x \<in> set ks"
    with assms(2) have "x \<noteq> k" by auto
    then have "\<not> touches op x" by (rule assms(4))
    then show "lastUse (ops @ [op]) x = lastUse ops x" by (simp add: lastUse_snoc)
  qed
  have new: "lastUse (ops @ [op]) k = Suc (length ops)"
    using assms(3) by (simp add: lastUse_snoc)
  have "sorted_wrt (\<lambda>a b. lastUse (ops @ [op]) a < lastUse (ops @ [op]) b) ks"
    using assms(1) same by (auto simp: sorted_wrt_iff_nth_less)
  moreover have "\<forall>x \<in> set ks. lastUse (ops @ [op]) x < lastUse (ops @ [op]) k"
    using same new lastUse_le [of ops] by (auto simp: less_Suc_eq_le)
  ultimately show ?thesis by (simp add: sorted_wrt_append)
qed

lemma sorted_untouched:
  assumes "sorted_wrt (\<lambda>a b. lastUse ops a < lastUse ops b) ks" "\<And>k. k \<in> set ks \<Longrightarrow> \<not> touches op k"
  shows "sorted_wrt (\<lambda>a b. lastUse (ops @ [op]) a < lastUse (ops @ [op]) b) ks"
  using assms by (auto simp: sorted_wrt_iff_nth_less lastUse_snoc)

lemma map_of_None_keys: "map_of al k = None \<longleftrightarrow> k \<notin> fst ` set al"
  by (simp add: map_of_eq_None_iff)

lemma refresh_inv:
  assumes inv: "lru_inv cap ops c" and pres: "map_of (cache c) k = Some v0"
    and t: "touches op k" "\<And>k'. k' \<noteq> k \<Longrightarrow> \<not> touches op k'"
  shows "lru_inv cap (ops @ [op]) (c\<lparr>cache := AList.update k v (AList.delete k (cache c))\<rparr>)"
proof -
  let ?ks = "map fst (cache c)"
  let ?ks' = "filter (\<lambda>x. x \<noteq> k) ?ks"
  from pres have kin: "k \<in> set ?ks" by (auto dest: map_of_SomeD intro: rev_image_eqI)
  have "k \<notin> set (map fst (AList.delete k (cache c)))"
    by (simp only: keys_delete) simp
  then have notin: "k \<notin> fst ` set (AList.delete k (cache c))" by simp
  then have upd: "AList.update k v (AList.delete k (cache c)) = AList.delete k (cache c) @ [(k, v)]"
    by (rule update_absent)
  have keys: "map fst (AList.delete k (cache c) @ [(k, v)]) = ?ks' @ [k]"
    by (simp add: keys_delete)
  from kin have "length ?ks' < length ?ks" by (intro length_filter_less [of k]) auto
  then have len: "length (AList.delete k (cache c) @ [(k, v)]) \<le> length (cache c)"
    using arg_cong [OF keys, of length] by simp
  from inv have srt: "sorted_wrt (\<lambda>a b. lastUse ops a < lastUse ops b) ?ks'"
    by (simp add: lru_inv_def sorted_wrt_filter)
  have "sorted_wrt (\<lambda>a b. lastUse (ops @ [op]) a < lastUse (ops @ [op]) b) (?ks' @ [k])"
    by (rule sorted_touch [OF srt _ t]) simp
  moreover from inv have "distinct (?ks' @ [k])" by (simp add: lru_inv_def)
  ultimately have "sorted_wrt (\<lambda>a b. lastUse (ops @ [op]) a < lastUse (ops @ [op]) b)
        (map fst (AList.delete k (cache c) @ [(k, v)]))"
    and "distinct (map fst (AList.delete k (cache c) @ [(k, v)]))"
    by (simp_all only: keys)
  with inv len show ?thesis
    unfolding lru_inv_def upd by simp
qed

lemma insert_inv:
  assumes inv: "lru_inv cap ops c" and cap: "1 \<le> cap" and abs: "map_of (cache c) k = None"
    and t: "touches op k" "\<And>k'. k' \<noteq> k \<Longrightarrow> \<not> touches op k'"
  shows "lru_inv cap (ops @ [op]) (LRUCache_set c k v) \<and>
         (length (cache c) = cap \<longrightarrow> cache (LRUCache_set c k v) = tl (cache c) @ [(k, v)])"
proof (cases "cap \<le> length (cache c)")
  case True
  with inv have full: "length (cache c) = cap" by (simp add: lru_inv_def)
  with cap obtain k0 v0 rest where c: "cache c = (k0, v0) # rest" by (cases "cache c") auto
  from inv c have k0: "k0 \<notin> fst ` set rest" by (simp add: lru_inv_def)
  from abs c have kabs: "k \<notin> fst ` set rest" by (auto simp: map_of_None_keys split: if_splits)
  have set: "LRUCache_set c k v = c\<lparr>cache := rest @ [(k, v)]\<rparr>"
    using abs True inv c k0 kabs
    by (simp add: LRUCache_set_def lru_inv_def delete_id update_absent)
  from inv c have srt: "sorted_wrt (\<lambda>a b. lastUse ops a < lastUse ops b) (map fst rest)"
    by (simp add: lru_inv_def)
  have "sorted_wrt (\<lambda>a b. lastUse (ops @ [op]) a < lastUse (ops @ [op]) b) (map fst rest @ [k])"
    by (rule sorted_touch [OF srt _ t]) (use kabs in auto)
  moreover from inv c kabs have "distinct (map fst rest @ [k])" by (auto simp: lru_inv_def)
  ultimately have "lru_inv cap (ops @ [op]) (LRUCache_set c k v)"
    using inv full c by (simp add: set lru_inv_def)
  with set c show ?thesis by simp
next
  case False
  from abs have kabs: "k \<notin> fst ` set (cache c)" by (simp add: map_of_None_keys)
  have set: "LRUCache_set c k v = c\<lparr>cache := cache c @ [(k, v)]\<rparr>"
    using abs False inv kabs by (simp add: LRUCache_set_def lru_inv_def update_absent)
  from inv have srt: "sorted_wrt (\<lambda>a b. lastUse ops a < lastUse ops b) (map fst (cache c))"
    by (simp add: lru_inv_def)
  have "sorted_wrt (\<lambda>a b. lastUse (ops @ [op]) a < lastUse (ops @ [op]) b) (map fst (cache c) @ [k])"
    by (rule sorted_touch [OF srt _ t]) (use kabs in auto)
  moreover from inv kabs have "distinct (map fst (cache c) @ [k])" by (auto simp: lru_inv_def)
  ultimately have "lru_inv cap (ops @ [op]) (LRUCache_set c k v)"
    using inv False by (simp add: set lru_inv_def)
  with False inv show ?thesis by (simp add: lru_inv_def)
qed

lemma lru_inv_step:
  assumes cap: "1 \<le> cap" and inv: "lru_inv cap ops c"
  shows "lru_inv cap (ops @ [op]) (cache_step op c)"
proof (cases op)
  case (OpGet k)
  show ?thesis
  proof (cases "map_of (cache c) k")
    case None
    then have "\<And>k'. k' \<in> set (map fst (cache c)) \<Longrightarrow> \<not> touches op k'"
      by (auto simp: OpGet map_of_None_keys)
    with inv have "sorted_wrt (\<lambda>a b. lastUse (ops @ [op]) a < lastUse (ops @ [op]) b) (map fst (cache c))"
      by (intro sorted_untouched) (auto simp: lru_inv_def)
    with inv None show ?thesis by (simp add: OpGet LRUCache_get_def lru_inv_def)
  next
    case (Some v)
    with refresh_inv [OF inv Some, of op v] show ?thesis
      by (simp add: OpGet LRUCache_get_def)
  qed
next
  case (OpSet k v)
  show ?thesis
  proof (cases "map_of (cache c) k")
    case None
    with insert_inv [OF inv cap None, of op v] show ?thesis by (simp add: OpSet)
  next
    case (Some v0)
    with refresh_inv [OF inv Some, of op v] show ?thesis
      by (simp add: OpSet LRUCache_set_def)
  qed
next
  case (OpDelete k)
  from inv have "sorted_wrt (\<lambda>a b. lastUse ops a < lastUse ops b) (map fst (AList.delete k (cache c)))"
    by (simp add: lru_inv_def keys_delete sorted_wrt_filter)
  then have "sorted_wrt (\<lambda>a b. lastUse (ops @ [op]) a < lastUse (ops @ [op]) b)
      (map fst (AList.delete k (cache c)))"
    by (rule sorted_untouched) (simp add: OpDelete)
  moreover have "length (AList.delete k (cache c)) \<le> length (cache c)"
    using arg_cong [OF keys_delete [of k "cache c"], of length] by (simp add: le_trans [OF length_filter_le])
  ultimately show ?thesis
    using inv by (simp add: OpDelete LRUCache_delete_def lru_inv_def keys_delete)
next
  case OpClear
  then show ?thesis using inv by (simp add: LRUCache_clear_def lru_inv_def)
qed

lemma cache_run_snoc: "cache_run cap (ops @ [op]) = cache_step op (cache_run cap ops)"
  by (simp add: cache_run_def)

lemma cache_run_inv: "1 \<le> cap \<Longrightarrow> lru_inv cap ops (cache_run cap ops)"
proof (induction ops rule: rev_induct)
  case Nil
  show ?case by (simp add: cache_run_def LRUCache_new_def lru_inv_def)
next
  case (snoc op ops)
  then show ?case by (simp add: cache_run_snoc lru_inv_step)
qed

text \<open>
  Claim C9.  For every capacity of at least 1 and every sequence of \<open>get\<close>, \<open>set\<close>,
  \<open>delete\<close> and \<open>clear\<close> calls, the cache holds at most \<open>capacity\<close> entries, with
  distinct keys, ordered by the time of their last \<open>get\<close> or \<open>set\<close>, least recent
  first; and a \<open>set\<close> of a new key on a full cache removes exactly the first entry,
  whose last use is the least recent of all, and appends the new one.
\<close>
theorem lru_bounded_and_evicts_least_recent:
  assumes "1 \<le> cap"
  shows "LRUCache_size (cache_run cap ops) \<le> cap \<and>
         distinct (map fst (cache (cache_run cap ops))) \<and>
         sorted_wrt (\<lambda>a b. lastUse ops a < lastUse ops b) (map fst (cache (cache_run cap ops))) \<and>
         (map_of (cache (cache_run cap ops)) k = None \<and> LRUCache_size (cache_run cap ops) = cap \<longrightarrow>
            cache (LRUCache_set (cache_run cap ops) k v) = tl (cache (cache_run cap ops)) @ [(k, v)] \<and>
            (\<forall>k' \<in> set (map fst (cache (cache_run cap ops))).
               lastUse ops (fst (hd (cache (cache_run cap ops)))) \<le> lastUse ops k'))"
proof -
  let ?c = "cache_run cap ops"
  from cache_run_inv [OF assms] have inv: "lru_inv cap ops ?c" .
  have evict: "cache (LRUCache_set ?c k v) = tl (cache ?c) @ [(k, v)]"
    if "map_of (cache ?c) k = None" "LRUCache_size ?c = cap"
    using insert_inv [OF inv assms that(1), of "OpSet k v" v] that(2)
    by (simp add: LRUCache_size_def)
  have least: "lastUse ops (fst (hd (cache ?c))) \<le> lastUse ops k'"
    if "k' \<in> set (map fst (cache ?c))" for k'
  proof (cases "cache ?c")
    case Nil
    with that show ?thesis by simp
  next
    case (Cons p rest)
    from inv have "sorted_wrt (\<lambda>a b. lastUse ops a < lastUse ops b) (map fst (cache ?c))"
      by (simp add: lru_inv_def)
    with Cons that show ?thesis by auto
  qed
  from inv evict least show ?thesis
    by (simp add: lru_inv_def LRUCache_size_def)
qed

theorem lru_bounded_and_evicts_least_recent_witness:
  "LRUCache_size (cache_run 2 [OpSet ''a'' (1::int), OpSet ''b'' 2, OpGet ''a'']) \<le> 2 \<and>
   cache (cache_run 2 [OpSet ''a'' (1::int), OpSet ''b'' 2, OpGet ''a'']) = [(''b'', 2), (''a'', 1)] \<and>
   cache (LRUCache_set (cache_run 2 [OpSet ''a'' (1::int), OpSet ''b'' 2, OpGet ''a'']) ''c'' 3) =
     [(''a'', 1), (''c'', 3)]"
proof -
  have run: "cache (cache_run 2 [OpSet ''a'' (1::int), OpSet ''b'' 2, OpGet ''a'']) = [(''b'', 2), (''a'', 1)]"
    by (simp add: cache_run_def LRUCache_new_def LRUCache_set_def LRUCache_get_def)
  have "(1::nat) \<le> 2" by simp
  from lru_bounded_and_evicts_least_recent [OF this, of "[OpSet ''a'' (1::int), OpSet ''b'' 2, OpGet ''a'']" "''c''" 3]
  show ?thesis by (simp add: run LRUCache_size_def)
qed

end
